theory Spec2Isabelle
  imports Complex_Main "HOL-Library.Multiset"
begin

section \<open>The program\<close>

subsection \<open>Data\<close>

text \<open>
  A \<^verbatim>\<open>Point\<close> is a Go slice of \<^verbatim>\<open>float64\<close>. In this section and the next,
  coordinates are real numbers with exact arithmetic, and the one non-finite value the
  code produces itself, \<^verbatim>\<open>math.Inf(1)\<close>, is the constructor \<open>PInf\<close> of the type of
  squared distances. Rounding, overflow and NaN are in the model of the search in
  \<^verbatim>\<open>float64\<close> arithmetic further down.
  Every slice index of the source is checked in the model: an index outside the slice
  is the run-time panic \<open>IndexOutOfRange\<close>. The fields \<^verbatim>\<open>Min\<close> and \<^verbatim>\<open>Max\<close> of a
  \<^verbatim>\<open>HyperRect\<close> are \<open>hrMin\<close> and \<open>hrMax\<close>, the field \<^verbatim>\<open>n\<close> of a \<^verbatim>\<open>KdTree\<close> is
  \<open>tree_n\<close>.
\<close>

type_synonym Point = "real list"

datatype error = IndexOutOfRange

datatype dist = Fin real | PInf

text \<open>The comparison \<^verbatim>\<open><\<close> of two \<^verbatim>\<open>float64\<close> values, one of which may be +Inf.\<close>

fun dlt :: "dist \<Rightarrow> dist \<Rightarrow> bool" where
  "dlt (Fin a) (Fin b) = (a < b)"
| "dlt (Fin a) PInf = True"
| "dlt PInf b = False"

record HyperRect =
  hrMin :: Point
  hrMax :: Point

text \<open>
  \<^verbatim>\<open>*kdNode\<close>: the nil pointer is \<open>KdNil\<close>. The type is polymorphic in the
  representation of the stored point, a value here and a slice header in the store
  model of the search further down. The fields of \<open>KdNode\<close> are, in the order of the
  source, \<^verbatim>\<open>domElt\<close>, \<^verbatim>\<open>split\<close>, \<^verbatim>\<open>left\<close> and \<^verbatim>\<open>right\<close>.
\<close>

datatype 'p kdNode =
  KdNil
| KdNode 'p nat "'p kdNode" "'p kdNode"

record KdTree =
  tree_n :: "Point kdNode"
  Bounds :: HyperRect

subsection \<open>Point.Sqd\<close>

text \<open>
  \<^verbatim>\<open>for dim, pCoord := range p { d := pCoord - q[dim]; sum += d * d }\<close>:
  the loop runs over the indices of \<open>p\<close> and panics at the first index \<open>q\<close> lacks
  (\<open>i\<close> is the source's \<^verbatim>\<open>dim\<close>, \<open>acc\<close> its \<^verbatim>\<open>sum\<close>).
\<close>

function Sqd_loop :: "Point \<Rightarrow> Point \<Rightarrow> nat \<Rightarrow> real \<Rightarrow> error + real" where
  "Sqd_loop p q i acc =
     (if i < length p then
        (if i < length q then
           (let d = p ! i - q ! i in Sqd_loop p q (i + 1) (acc + d * d))
         else Inl IndexOutOfRange)
      else Inr acc)"
  by pat_completeness auto
termination
  by (relation "measure (\<lambda>(p, q, i, acc). length p - i)") auto

declare Sqd_loop.simps [simp del]

definition Sqd :: "Point \<Rightarrow> Point \<Rightarrow> error + real" where
  "Sqd p q = Sqd_loop p q 0 0"

subsection \<open>HyperRect.Copy\<close>

definition Copy :: "HyperRect \<Rightarrow> HyperRect" where
  "Copy hr = \<lparr>hrMin = [] @ hrMin hr, hrMax = [] @ hrMax hr\<rparr>"

subsection \<open>sort.Sort on a part\<close>

text \<open>
  \<^verbatim>\<open>sort.Sort\<close> belongs to the Go standard library. It reorders the slice only
  through \<^verbatim>\<open>Swap\<close>, so the outcome is a permutation of the input, and on return no
  element is \<^verbatim>\<open>Less\<close> than an earlier one. It is not stable. A \<open>sorter\<close> is any
  function with these two properties; the construction takes one as a parameter.
\<close>

typedef sorter =
  "{f :: nat \<Rightarrow> Point list \<Rightarrow> Point list.
      \<forall>s xs. mset (f s xs) = mset xs \<and>
        ((\<forall>p \<in> set xs. s < length p) \<longrightarrow> sorted (map (\<lambda>p. p ! s) (f s xs)))}"
proof
  show "(\<lambda>s. sort_key (\<lambda>p. p ! s)) \<in>
    {f :: nat \<Rightarrow> Point list \<Rightarrow> Point list.
      \<forall>s xs. mset (f s xs) = mset xs \<and>
        ((\<forall>p \<in> set xs. s < length p) \<longrightarrow> sorted (map (\<lambda>p. p ! s) (f s xs)))}"
    by simp
qed

setup_lifting type_definition_sorter

lift_definition sort_by :: "sorter \<Rightarrow> nat \<Rightarrow> Point list \<Rightarrow> Point list"
  is "\<lambda>f. f" .

text \<open>
  The insertion sort that \<^verbatim>\<open>sort.Sort\<close> runs on short slices: it moves an element
  only past strictly greater ones, so equal keys keep their order. The one example below
  whose outcome depends on the order of equal keys sorts a slice of three elements.
\<close>

lift_definition insertion_sorter :: sorter
  is "\<lambda>s. sort_key (\<lambda>p. p ! s)"
  by simp

text \<open>
  \<^verbatim>\<open>sort.Sort(part{exset, split})\<close>. With fewer than two elements \<^verbatim>\<open>Less\<close> is never
  called. Otherwise every element takes part in a comparison
  \<^verbatim>\<open>p.pts[i][p.dPart] < p.pts[j][p.dPart]\<close>, which panics on a point without
  coordinate \<open>dPart\<close>.
\<close>

definition sort_part :: "sorter \<Rightarrow> Point list \<Rightarrow> nat \<Rightarrow> error + Point list" where
  "sort_part srt pts dPart =
     (if length pts < 2 then Inr pts
      else if \<exists>p \<in> set pts. \<not> dPart < length p then Inl IndexOutOfRange
      else Inr (sort_by srt dPart pts))"

subsection \<open>New\<close>

text \<open>
  \<^verbatim>\<open>for m+1 < len(exset) && exset[m+1][split] == d[split] { m++ }\<close>
\<close>

function advance :: "Point list \<Rightarrow> nat \<Rightarrow> Point \<Rightarrow> nat \<Rightarrow> error + nat" where
  "advance exset split d m =
     (if m + 1 < length exset then
        (if split < length (exset ! (m + 1)) \<and> split < length d then
           (if exset ! (m + 1) ! split = d ! split then advance exset split d (m + 1)
            else Inr m)
         else Inl IndexOutOfRange)
      else Inr m)"
  by pat_completeness auto
termination
  by (relation "measure (\<lambda>(exset, split, d, m). length exset - m)") auto

declare advance.simps [simp del]

lemma advance_bounds:
  "advance exset split d m = Inr m' \<Longrightarrow> m < length exset \<Longrightarrow> m \<le> m' \<and> m' < length exset"
proof (induction exset split d m rule: advance.induct)
  case (1 exset split d m)
  show ?case
  proof (cases "m + 1 < length exset \<and> split < length (exset ! (m + 1)) \<and> split < length d
      \<and> exset ! (m + 1) ! split = d ! split")
    case True
    with "1.prems" have "advance exset split d (m + 1) = Inr m'"
      by (subst (asm) advance.simps) simp
    with True "1.IH" have "m + 1 \<le> m' \<and> m' < length exset"
      by simp
    then show ?thesis by simp
  next
    case False
    with "1.prems" have "m' = m"
      by (subst (asm) advance.simps) (auto split: if_splits)
    with "1.prems" show ?thesis by simp
  qed
qed

lemma length_sort_part:
  "sort_part srt pts dPart = Inr ys \<Longrightarrow> length ys = length pts"
proof -
  have "mset (sort_by srt dPart pts) = mset pts"
    by transfer simp
  then have "length (sort_by srt dPart pts) = length pts"
    by (rule mset_eq_length)
  then show "sort_part srt pts dPart = Inr ys \<Longrightarrow> length ys = length pts"
    by (auto simp: sort_part_def split: if_splits)
qed

text \<open>
  The closure \<^verbatim>\<open>nk2\<close>. The sort and the two recursive calls work in place on
  sub-slices of the caller's slice, so the model returns, with the node, the contents
  of \<open>exset\<close> when the call is over: the left part as the left call leaves it, the
  element at index \<open>m\<close>, the right part as the right call leaves it. The pivot \<open>d\<close> is
  read at the median index before the loop moves \<open>m\<close>.
\<close>

function nk2 :: "sorter \<Rightarrow> Point list \<Rightarrow> nat \<Rightarrow> error + (Point kdNode \<times> Point list)" where
  "nk2 srt exset split =
     (if length exset = 0 then Inr (KdNil, exset)
      else
        case sort_part srt exset split of
          Inl e \<Rightarrow> Inl e
        | Inr sorted_exset \<Rightarrow>
            (let m0 = length sorted_exset div 2;
                 d = sorted_exset ! m0
             in case advance sorted_exset split d m0 of
                  Inl e \<Rightarrow> Inl e
                | Inr m \<Rightarrow>
                    (let s2 = (if split + 1 = length d then 0 else split + 1)
                     in case nk2 srt (take m sorted_exset) s2 of
                          Inl e \<Rightarrow> Inl e
                        | Inr (l, exset_l) \<Rightarrow>
                            (case nk2 srt (drop (m + 1) sorted_exset) s2 of
                               Inl e \<Rightarrow> Inl e
                             | Inr (r, exset_r) \<Rightarrow>
                                 Inr (KdNode d split l r,
                                      exset_l @ [sorted_exset ! m] @ exset_r)))))"
  by pat_completeness auto
termination
proof (relation "measure (\<lambda>(srt, exset, split). length exset)")
  show "wf (measure (\<lambda>(srt, exset, split). length exset))"
    by simp
next
  fix srt :: sorter and exset :: "Point list" and split :: nat
    and sorted_exset m0 d m s2
  assume ne: "length exset \<noteq> 0"
    and so: "sort_part srt exset split = Inr sorted_exset"
    and m0: "m0 = length sorted_exset div 2"
    and adv: "advance sorted_exset split d m0 = Inr m"
  from so have len: "length sorted_exset = length exset"
    by (rule length_sort_part)
  with ne m0 have "m0 < length sorted_exset"
    by simp
  with adv have "m < length sorted_exset"
    using advance_bounds by blast
  with len show "((srt, take m sorted_exset, s2), srt, exset, split)
      \<in> measure (\<lambda>(srt, exset, split). length exset)"
    by simp
  from len ne show "((srt, drop (m + 1) sorted_exset, s2), srt, exset, split)
      \<in> measure (\<lambda>(srt, exset, split). length exset)"
    by simp
qed

declare nk2.simps [simp del]

definition New :: "sorter \<Rightarrow> Point list \<Rightarrow> HyperRect \<Rightarrow> error + (KdTree \<times> Point list)" where
  "New srt pts bounds =
     (case nk2 srt pts 0 of
        Inl e \<Rightarrow> Inl e
      | Inr (node, pts') \<Rightarrow> Inr (\<lparr>tree_n = node, Bounds = bounds\<rparr>, pts'))"

subsection \<open>Nearest\<close>

text \<open>
  The recursive search \<^verbatim>\<open>nn\<close>, statement by statement. The result is the triple
  (nearest, distSqd, nodesVisited); a nil \<^verbatim>\<open>Point\<close> is \<open>None\<close>. Boxes are values
  here, so \<^verbatim>\<open>hr.Copy()\<close> followed by \<^verbatim>\<open>leftHr.Max[s] = pivot[s]\<close> is a list update
  of the copy; the store model of the next section has the cells and the writes.
\<close>

fun nn :: "Point kdNode \<Rightarrow> Point \<Rightarrow> HyperRect \<Rightarrow> dist \<Rightarrow> error + (Point option \<times> dist \<times> nat)" where
  "nn KdNil target hr maxDistSqd = Inr (None, PInf, 0)"
| "nn (KdNode pivot s l r) target hr maxDistSqd =
     (let leftHr = Copy hr;
          rightHr = Copy hr
      in if \<not> (s < length (hrMax leftHr) \<and> s < length pivot) then Inl IndexOutOfRange
         else let leftHr = leftHr\<lparr>hrMax := (hrMax leftHr)[s := pivot ! s]\<rparr>
         in if \<not> s < length (hrMin rightHr) then Inl IndexOutOfRange
         else let rightHr = rightHr\<lparr>hrMin := (hrMin rightHr)[s := pivot ! s]\<rparr>
         in if \<not> s < length target then Inl IndexOutOfRange
         else let targetInLeft = (target ! s \<le> pivot ! s)
         in case nn (if targetInLeft then l else r) target
                    (if targetInLeft then leftHr else rightHr) maxDistSqd of
              Inl e \<Rightarrow> Inl e
            | Inr (nearest, distSqd, nv) \<Rightarrow>
                (let nodesVisited = 1 + nv;
                     maxDistSqd = (if dlt distSqd maxDistSqd then distSqd else maxDistSqd);
                     d = pivot ! s - target ! s;
                     d = d * d
                 in if dlt maxDistSqd (Fin d) then Inr (nearest, distSqd, nodesVisited)
                    else
                      case Sqd pivot target of
                        Inl e \<Rightarrow> Inl e
                      | Inr d \<Rightarrow>
                          (let upd = dlt (Fin d) distSqd;
                               nearest = (if upd then Some pivot else nearest);
                               distSqd = (if upd then Fin d else distSqd);
                               maxDistSqd = (if upd then distSqd else maxDistSqd)
                           in case nn (if targetInLeft then r else l) target
                                      (if targetInLeft then rightHr else leftHr) maxDistSqd of
                                Inl e \<Rightarrow> Inl e
                              | Inr (tempNearest, tempSqd, nv) \<Rightarrow>
                                  (let nodesVisited = nodesVisited + nv
                                   in if dlt tempSqd distSqd
                                      then Inr (tempNearest, tempSqd, nodesVisited)
                                      else Inr (nearest, distSqd, nodesVisited)))))"

definition Nearest :: "KdTree \<Rightarrow> Point \<Rightarrow> error + (Point option \<times> dist \<times> nat)" where
  "Nearest t p = nn (tree_n t) p (Bounds t) PInf"

section \<open>The search with an explicit store\<close>

text \<open>
  The store holds the \<^verbatim>\<open>float64\<close> cells allocated so far; the address of a cell is
  its index. A slice header is the address of its first cell and its length (the capacity
  plays no part here: the only \<^verbatim>\<open>append\<close> of the package starts from an empty slice
  and so always takes fresh cells).
\<close>

type_synonym heap = "real list"

record slice =
  ptr :: nat
  len :: nat

record HyperRect_h =
  hMin :: slice
  hMax :: slice

text \<open>
  The coordinates a slice holds in a store, and the value of a box in a store.
\<close>

definition contents :: "heap \<Rightarrow> slice \<Rightarrow> Point" where
  "contents h sl = take (len sl) (drop (ptr sl) h)"

definition box :: "heap \<Rightarrow> HyperRect_h \<Rightarrow> HyperRect" where
  "box h hr = \<lparr>hrMin = contents h (hMin hr), hrMax = contents h (hMax hr)\<rparr>"

text \<open>
  \<^verbatim>\<open>sl[i]\<close> read and \<^verbatim>\<open>sl[i] = v\<close> written, with the bounds check of the run time.
\<close>

definition index_h :: "heap \<Rightarrow> slice \<Rightarrow> nat \<Rightarrow> error + real" where
  "index_h h sl i = (if i < len sl then Inr (h ! (ptr sl + i)) else Inl IndexOutOfRange)"

definition assign_h :: "heap \<Rightarrow> slice \<Rightarrow> nat \<Rightarrow> real \<Rightarrow> error + heap" where
  "assign_h h sl i v = (if i < len sl then Inr (h[ptr sl + i := v]) else Inl IndexOutOfRange)"

text \<open>
  \<^verbatim>\<open>append(Point{}, src...)\<close>: the elements of \<open>src\<close> are copied to fresh cells at the
  end of the store. \<^verbatim>\<open>HyperRect.Copy\<close> does this for \<^verbatim>\<open>Min\<close>, then for \<^verbatim>\<open>Max\<close>.
\<close>

definition append_new :: "heap \<Rightarrow> slice \<Rightarrow> slice \<times> heap" where
  "append_new h src = (\<lparr>ptr = length h, len = len src\<rparr>, h @ contents h src)"

definition Copy_h :: "HyperRect_h \<Rightarrow> heap \<Rightarrow> HyperRect_h \<times> heap" where
  "Copy_h hr h =
     (case append_new h (hMin hr) of (mn, h) \<Rightarrow>
      case append_new h (hMax hr) of (mx, h) \<Rightarrow>
        (\<lparr>hMin = mn, hMax = mx\<rparr>, h))"

text \<open>
  \<^verbatim>\<open>Point.Sqd\<close> on two slices of the store.
\<close>

function Sqd_h_loop :: "heap \<Rightarrow> slice \<Rightarrow> slice \<Rightarrow> nat \<Rightarrow> real \<Rightarrow> error + real" where
  "Sqd_h_loop h p q i acc =
     (if i < len p then
        (if i < len q then
           (let d = h ! (ptr p + i) - h ! (ptr q + i) in Sqd_h_loop h p q (i + 1) (acc + d * d))
         else Inl IndexOutOfRange)
      else Inr acc)"
  by pat_completeness auto
termination
  by (relation "measure (\<lambda>(h, p, q, i, acc). len p - i)") auto

declare Sqd_h_loop.simps [simp del]

definition Sqd_h :: "heap \<Rightarrow> slice \<Rightarrow> slice \<Rightarrow> error + real" where
  "Sqd_h h p q = Sqd_h_loop h p q 0 0"

text \<open>
  The four statements of \<^verbatim>\<open>nn\<close> that make the two boxes of a node:
  \<^verbatim>\<open>leftHr := hr.Copy()\<close>, \<^verbatim>\<open>rightHr := hr.Copy()\<close>,
  \<^verbatim>\<open>leftHr.Max[s] = pivot[s]\<close>, \<^verbatim>\<open>rightHr.Min[s] = pivot[s]\<close>.
\<close>

definition narrow_h ::
  "HyperRect_h \<Rightarrow> slice \<Rightarrow> nat \<Rightarrow> heap \<Rightarrow> error + (HyperRect_h \<times> HyperRect_h \<times> heap)" where
  "narrow_h hr pivot s h =
     (case Copy_h hr h of (leftHr, h) \<Rightarrow>
      case Copy_h hr h of (rightHr, h) \<Rightarrow>
      case index_h h pivot s of Inl e \<Rightarrow> Inl e | Inr v \<Rightarrow>
      case assign_h h (hMax leftHr) s v of Inl e \<Rightarrow> Inl e | Inr h \<Rightarrow>
      case index_h h pivot s of Inl e \<Rightarrow> Inl e | Inr v \<Rightarrow>
      case assign_h h (hMin rightHr) s v of Inl e \<Rightarrow> Inl e | Inr h \<Rightarrow>
        Inr (leftHr, rightHr, h))"

text \<open>
  \<^verbatim>\<open>nn\<close> with the store passed along: every read of \<^verbatim>\<open>pivot[s]\<close> and
  \<^verbatim>\<open>target[s]\<close> is a read of the store as it is at that statement, and the result
  carries the store as the call leaves it. The tree holds slice headers.
\<close>

fun nn_h :: "slice kdNode \<Rightarrow> slice \<Rightarrow> HyperRect_h \<Rightarrow> dist \<Rightarrow> heap \<Rightarrow>
    error + ((slice option \<times> dist \<times> nat) \<times> heap)" where
  "nn_h KdNil target hr maxDistSqd h = Inr ((None, PInf, 0), h)"
| "nn_h (KdNode pivot s l r) target hr maxDistSqd h =
     (case narrow_h hr pivot s h of Inl e \<Rightarrow> Inl e | Inr (leftHr, rightHr, h) \<Rightarrow>
      case index_h h target s of Inl e \<Rightarrow> Inl e | Inr ts \<Rightarrow>
      case index_h h pivot s of Inl e \<Rightarrow> Inl e | Inr ps \<Rightarrow>
      let targetInLeft = (ts \<le> ps)
      in case nn_h (if targetInLeft then l else r) target
                   (if targetInLeft then leftHr else rightHr) maxDistSqd h of
           Inl e \<Rightarrow> Inl e
         | Inr ((nearest, distSqd, nv), h) \<Rightarrow>
             (let nodesVisited = 1 + nv;
                  maxDistSqd = (if dlt distSqd maxDistSqd then distSqd else maxDistSqd)
              in case index_h h pivot s of Inl e \<Rightarrow> Inl e | Inr ps \<Rightarrow>
                 case index_h h target s of Inl e \<Rightarrow> Inl e | Inr ts \<Rightarrow>
                 let d = ps - ts;
                     d = d * d
                 in if dlt maxDistSqd (Fin d) then Inr ((nearest, distSqd, nodesVisited), h)
                    else
                      case Sqd_h h pivot target of
                        Inl e \<Rightarrow> Inl e
                      | Inr d \<Rightarrow>
                          (let upd = dlt (Fin d) distSqd;
                               nearest = (if upd then Some pivot else nearest);
                               distSqd = (if upd then Fin d else distSqd);
                               maxDistSqd = (if upd then distSqd else maxDistSqd)
                           in case nn_h (if targetInLeft then r else l) target
                                        (if targetInLeft then rightHr else leftHr) maxDistSqd h of
                                Inl e \<Rightarrow> Inl e
                              | Inr ((tempNearest, tempSqd, nv), h) \<Rightarrow>
                                  (let nodesVisited = nodesVisited + nv
                                   in if dlt tempSqd distSqd
                                      then Inr ((tempNearest, tempSqd, nodesVisited), h)
                                      else Inr ((nearest, distSqd, nodesVisited), h)))))"

text \<open>
  \<^verbatim>\<open>KdTree\<close> and \<^verbatim>\<open>Nearest\<close> over the store.
\<close>

record KdTree_h =
  tree_n_h :: "slice kdNode"
  Bounds_h :: HyperRect_h

definition Nearest_h ::
  "KdTree_h \<Rightarrow> slice \<Rightarrow> heap \<Rightarrow> error + ((slice option \<times> dist \<times> nat) \<times> heap)" where
  "Nearest_h t p h = nn_h (tree_n_h t) p (Bounds_h t) PInf h"

section \<open>The search in float64 arithmetic\<close>

text \<open>
  The sections above compute with exact reals. Here \<^verbatim>\<open>Sqd\<close> and \<^verbatim>\<open>nn\<close> are modelled
  once more, with the values and the operations of \<^verbatim>\<open>float64\<close>. A value is finite,
  +Inf, -Inf or NaN. An operation on two finite values returns its exact result rounded,
  and rounding may overflow to an infinity. The operations take the rounding function as
  a parameter \<open>rnd\<close>, so that a fact proved for a class of rounding functions holds for
  the rounding of \<^verbatim>\<open>float64\<close>, \<open>round_f64\<close> below. Every operation is rounded on its
  own. The two zeros are the one value \<open>Fl 0\<close>: they compare equal, and the package has
  no operation that tells them apart. All NaNs are the one value \<open>NaN\<close>.
\<close>

datatype f64 = Fl real | PosInf | NegInf | NaN

type_synonym Point_f = "f64 list"

text \<open>Unary minus, and the comparisons \<^verbatim>\<open><\<close>, \<^verbatim>\<open>==\<close> and \<^verbatim>\<open><=\<close>: each
  comparison is false when an operand is NaN.\<close>

fun fneg :: "f64 \<Rightarrow> f64" where
  "fneg (Fl a) = Fl (- a)"
| "fneg PosInf = NegInf"
| "fneg NegInf = PosInf"
| "fneg NaN = NaN"

fun flt :: "f64 \<Rightarrow> f64 \<Rightarrow> bool" where
  "flt (Fl a) (Fl b) = (a < b)"
| "flt (Fl a) PosInf = True"
| "flt NegInf (Fl b) = True"
| "flt NegInf PosInf = True"
| "flt x y = False"

fun feq :: "f64 \<Rightarrow> f64 \<Rightarrow> bool" where
  "feq (Fl a) (Fl b) = (a = b)"
| "feq PosInf PosInf = True"
| "feq NegInf NegInf = True"
| "feq x y = False"

definition fle :: "f64 \<Rightarrow> f64 \<Rightarrow> bool" where
  "fle x y = (flt x y \<or> feq x y)"

text \<open>
  Rounding to nearest, ties to even, as \<^verbatim>\<open>float64\<close> arithmetic rounds. \<open>rint\<close>
  rounds a real to an integer. A positive real with binary exponent \<open>e\<close> is rounded to a
  multiple of \<open>2 ^ (e - 52)\<close>; the least exponent is \<open>-1022\<close> (below \<open>2 ^ -1022\<close>
  the values are the multiples of \<open>2 ^ -1074\<close>), and a result of \<open>2 ^ 1024\<close> or more
  overflows. The program is the model below with \<open>round_f64\<close> for \<open>rnd\<close>.
\<close>

definition rint :: "real \<Rightarrow> int" where
  "rint q =
     (let n = \<lfloor>q\<rfloor>
      in if q - of_int n < 1 / 2 then n
         else if 1 / 2 < q - of_int n then n + 1
         else if even n then n else n + 1)"

definition round_pos :: "real \<Rightarrow> f64" where
  "round_pos x =
     (let e = max \<lfloor>log 2 x\<rfloor> (- 1022);
          ulp = 2 powr of_int (e - 52);
          r = of_int (rint (x / ulp)) * ulp
      in if 2 ^ 1024 \<le> r then PosInf else Fl r)"

definition round_f64 :: "real \<Rightarrow> f64" where
  "round_f64 x =
     (if x = 0 then Fl 0 else if 0 < x then round_pos x else fneg (round_pos (- x)))"

text \<open>Addition, subtraction (\<open>x - y\<close> is \<open>x + (-y)\<close>) and multiplication. The sum of
  the two infinities and the product of an infinity and zero are NaN.\<close>

fun fadd :: "(real \<Rightarrow> f64) \<Rightarrow> f64 \<Rightarrow> f64 \<Rightarrow> f64" where
  "fadd rnd (Fl a) (Fl b) = rnd (a + b)"
| "fadd rnd NaN y = NaN"
| "fadd rnd x NaN = NaN"
| "fadd rnd PosInf NegInf = NaN"
| "fadd rnd NegInf PosInf = NaN"
| "fadd rnd PosInf y = PosInf"
| "fadd rnd x PosInf = PosInf"
| "fadd rnd NegInf y = NegInf"
| "fadd rnd x NegInf = NegInf"

definition fsub :: "(real \<Rightarrow> f64) \<Rightarrow> f64 \<Rightarrow> f64 \<Rightarrow> f64" where
  "fsub rnd x y = fadd rnd x (fneg y)"

fun fmul :: "(real \<Rightarrow> f64) \<Rightarrow> f64 \<Rightarrow> f64 \<Rightarrow> f64" where
  "fmul rnd (Fl a) (Fl b) = rnd (a * b)"
| "fmul rnd NaN y = NaN"
| "fmul rnd x NaN = NaN"
| "fmul rnd PosInf (Fl b) = (if b = 0 then NaN else if 0 < b then PosInf else NegInf)"
| "fmul rnd NegInf (Fl b) = (if b = 0 then NaN else if 0 < b then NegInf else PosInf)"
| "fmul rnd (Fl a) PosInf = (if a = 0 then NaN else if 0 < a then PosInf else NegInf)"
| "fmul rnd (Fl a) NegInf = (if a = 0 then NaN else if 0 < a then NegInf else PosInf)"
| "fmul rnd PosInf PosInf = PosInf"
| "fmul rnd NegInf NegInf = PosInf"
| "fmul rnd PosInf NegInf = NegInf"
| "fmul rnd NegInf PosInf = NegInf"

record HyperRect_f =
  fMin :: Point_f
  fMax :: Point_f

record KdTree_f =
  tree_n_f :: "Point_f kdNode"
  Bounds_f :: HyperRect_f

text \<open>\<^verbatim>\<open>Point.Sqd\<close>: \<^verbatim>\<open>var sum float64\<close> starts at zero, and each turn of the loop
  subtracts, multiplies and adds.\<close>

function Sqd_f_loop ::
  "(real \<Rightarrow> f64) \<Rightarrow> Point_f \<Rightarrow> Point_f \<Rightarrow> nat \<Rightarrow> f64 \<Rightarrow> error + f64" where
  "Sqd_f_loop rnd p q i acc =
     (if i < length p then
        (if i < length q then
           (let d = fsub rnd (p ! i) (q ! i)
            in Sqd_f_loop rnd p q (i + 1) (fadd rnd acc (fmul rnd d d)))
         else Inl IndexOutOfRange)
      else Inr acc)"
  by pat_completeness auto
termination
  by (relation "measure (\<lambda>(rnd, p, q, i, acc). length p - i)") auto

declare Sqd_f_loop.simps [simp del]

definition Sqd_f :: "(real \<Rightarrow> f64) \<Rightarrow> Point_f \<Rightarrow> Point_f \<Rightarrow> error + f64" where
  "Sqd_f rnd p q = Sqd_f_loop rnd p q 0 (Fl 0)"

definition Copy_f :: "HyperRect_f \<Rightarrow> HyperRect_f" where
  "Copy_f hr = \<lparr>fMin = [] @ fMin hr, fMax = [] @ fMax hr\<rparr>"

text \<open>\<^verbatim>\<open>nn\<close>, statement by statement as above; \<^verbatim>\<open>d > maxDistSqd\<close> is
  \<open>flt maxDistSqd d\<close>.\<close>

fun nn_f :: "(real \<Rightarrow> f64) \<Rightarrow> Point_f kdNode \<Rightarrow> Point_f \<Rightarrow> HyperRect_f \<Rightarrow> f64 \<Rightarrow>
    error + (Point_f option \<times> f64 \<times> nat)" where
  "nn_f rnd KdNil target hr maxDistSqd = Inr (None, PosInf, 0)"
| "nn_f rnd (KdNode pivot s l r) target hr maxDistSqd =
     (let leftHr = Copy_f hr;
          rightHr = Copy_f hr
      in if \<not> (s < length (fMax leftHr) \<and> s < length pivot) then Inl IndexOutOfRange
         else let leftHr = leftHr\<lparr>fMax := (fMax leftHr)[s := pivot ! s]\<rparr>
         in if \<not> s < length (fMin rightHr) then Inl IndexOutOfRange
         else let rightHr = rightHr\<lparr>fMin := (fMin rightHr)[s := pivot ! s]\<rparr>
         in if \<not> s < length target then Inl IndexOutOfRange
         else let targetInLeft = fle (target ! s) (pivot ! s)
         in case nn_f rnd (if targetInLeft then l else r) target
                    (if targetInLeft then leftHr else rightHr) maxDistSqd of
              Inl e \<Rightarrow> Inl e
            | Inr (nearest, distSqd, nv) \<Rightarrow>
                (let nodesVisited = 1 + nv;
                     maxDistSqd = (if flt distSqd maxDistSqd then distSqd else maxDistSqd);
                     d = fsub rnd (pivot ! s) (target ! s);
                     d = fmul rnd d d
                 in if flt maxDistSqd d then Inr (nearest, distSqd, nodesVisited)
                    else
                      case Sqd_f rnd pivot target of
                        Inl e \<Rightarrow> Inl e
                      | Inr d \<Rightarrow>
                          (let upd = flt d distSqd;
                               nearest = (if upd then Some pivot else nearest);
                               distSqd = (if upd then d else distSqd);
                               maxDistSqd = (if upd then distSqd else maxDistSqd)
                           in case nn_f rnd (if targetInLeft then r else l) target
                                      (if targetInLeft then rightHr else leftHr) maxDistSqd of
                                Inl e \<Rightarrow> Inl e
                              | Inr (tempNearest, tempSqd, nv) \<Rightarrow>
                                  (let nodesVisited = nodesVisited + nv
                                   in if flt tempSqd distSqd
                                      then Inr (tempNearest, tempSqd, nodesVisited)
                                      else Inr (nearest, distSqd, nodesVisited)))))"

definition Nearest_f ::
  "(real \<Rightarrow> f64) \<Rightarrow> KdTree_f \<Rightarrow> Point_f \<Rightarrow> error + (Point_f option \<times> f64 \<times> nat)" where
  "Nearest_f rnd t p = nn_f rnd (tree_n_f t) p (Bounds_f t) PosInf"

section \<open>Notions used in the statements\<close>

text \<open>
  Names for three expressions of \<^verbatim>\<open>nn\<close>, used to state facts about it: the two
  narrowed copies of the incoming box, and the bound after the near-side call
  (\<^verbatim>\<open>if distSqd < maxDistSqd { maxDistSqd = distSqd }\<close>).
\<close>

definition leftBox :: "HyperRect \<Rightarrow> nat \<Rightarrow> real \<Rightarrow> HyperRect" where
  "leftBox hr s v = (Copy hr)\<lparr>hrMax := (hrMax (Copy hr))[s := v]\<rparr>"

definition rightBox :: "HyperRect \<Rightarrow> nat \<Rightarrow> real \<Rightarrow> HyperRect" where
  "rightBox hr s v = (Copy hr)\<lparr>hrMin := (hrMin (Copy hr))[s := v]\<rparr>"

definition tighten :: "dist \<Rightarrow> dist \<Rightarrow> dist" where
  "tighten d B = (if dlt d B then d else B)"

text \<open>The points stored in a tree.\<close>

fun points :: "'p kdNode \<Rightarrow> 'p set" where
  "points KdNil = {}"
| "points (KdNode d s l r) = insert d (points l \<union> points r)"

text \<open>What a successful search returns: nothing at distance +Inf, or a stored point with
  its squared distance.\<close>

definition found :: "Point kdNode \<Rightarrow> Point \<Rightarrow> Point option \<Rightarrow> dist \<Rightarrow> bool" where
  "found kd target n d \<longleftrightarrow>
     (n = None \<and> d = PInf) \<or>
     (\<exists>p v. n = Some p \<and> p \<in> points kd \<and> Sqd p target = Inr v \<and> d = Fin v)"

text \<open>A tree of dimension \<open>k\<close>: every stored point has \<open>k\<close> coordinates and every
  split index is one of them.\<close>

fun dims :: "nat \<Rightarrow> Point kdNode \<Rightarrow> bool" where
  "dims k KdNil = True"
| "dims k (KdNode d s l r) = (length d = k \<and> s < k \<and> dims k l \<and> dims k r)"

text \<open>The partition invariant of a node and of every node below it.\<close>

fun child_split :: "nat \<Rightarrow> nat \<Rightarrow> Point kdNode \<Rightarrow> bool" where
  "child_split k s KdNil = True"
| "child_split k s (KdNode d s' l r) = (s' = (s + 1) mod k)"

fun partition_inv :: "nat \<Rightarrow> Point kdNode \<Rightarrow> bool" where
  "partition_inv k KdNil = True"
| "partition_inv k (KdNode d s l r) =
     ((\<forall>q \<in> points l. q ! s \<le> d ! s) \<and> (\<forall>q \<in> points r. d ! s \<le> q ! s) \<and>
      child_split k s l \<and> child_split k s r \<and> partition_inv k l \<and> partition_inv k r)"

text \<open>A slice, and a box, whose cells are all allocated in the store.\<close>

definition wf_slice :: "heap \<Rightarrow> slice \<Rightarrow> bool" where
  "wf_slice h sl \<longleftrightarrow> ptr sl + len sl \<le> length h"

definition wf_box :: "heap \<Rightarrow> HyperRect_h \<Rightarrow> bool" where
  "wf_box h hr \<longleftrightarrow> wf_slice h (hMin hr) \<and> wf_slice h (hMax hr)"

text \<open>
  A later store \<open>h'\<close> frames an earlier one \<open>h\<close>: it is at least as long, and every
  cell of \<open>h\<close> holds in \<open>h'\<close> the value it holds in \<open>h\<close>.
\<close>

definition frame :: "heap \<Rightarrow> heap \<Rightarrow> bool" where
  "frame h h' \<longleftrightarrow> length h \<le> length h' \<and> take (length h) h' = h"

text \<open>A rounding function that commutes with negation, as \<open>round_f64\<close> does.\<close>

definition odd_rounding :: "(real \<Rightarrow> f64) \<Rightarrow> bool" where
  "odd_rounding rnd \<longleftrightarrow> (\<forall>x. rnd (- x) = fneg (rnd x))"

text \<open>The notions above, for the search in \<^verbatim>\<open>float64\<close> arithmetic.\<close>

definition leftBox_f :: "HyperRect_f \<Rightarrow> nat \<Rightarrow> f64 \<Rightarrow> HyperRect_f" where
  "leftBox_f hr s v = (Copy_f hr)\<lparr>fMax := (fMax (Copy_f hr))[s := v]\<rparr>"

definition rightBox_f :: "HyperRect_f \<Rightarrow> nat \<Rightarrow> f64 \<Rightarrow> HyperRect_f" where
  "rightBox_f hr s v = (Copy_f hr)\<lparr>fMin := (fMin (Copy_f hr))[s := v]\<rparr>"

definition tighten_f :: "f64 \<Rightarrow> f64 \<Rightarrow> f64" where
  "tighten_f d B = (if flt d B then d else B)"

definition found_f ::
  "(real \<Rightarrow> f64) \<Rightarrow> Point_f kdNode \<Rightarrow> Point_f \<Rightarrow> Point_f option \<Rightarrow> f64 \<Rightarrow> bool" where
  "found_f rnd kd target n d \<longleftrightarrow>
     (n = None \<and> d = PosInf) \<or>
     (\<exists>p. n = Some p \<and> p \<in> points kd \<and> Sqd_f rnd p target = Inr d \<and> flt d PosInf)"

fun dims_f :: "nat \<Rightarrow> Point_f kdNode \<Rightarrow> bool" where
  "dims_f k KdNil = True"
| "dims_f k (KdNode d s l r) = (length d = k \<and> s < k \<and> dims_f k l \<and> dims_f k r)"

text \<open>A box, a distance, an outcome of the search and a tree over the reals, as
  \<^verbatim>\<open>float64\<close> values.\<close>

definition float_box :: "HyperRect \<Rightarrow> HyperRect_f" where
  "float_box hr = \<lparr>fMin = map Fl (hrMin hr), fMax = map Fl (hrMax hr)\<rparr>"

fun float_dist :: "dist \<Rightarrow> f64" where
  "float_dist (Fin v) = Fl v"
| "float_dist PInf = PosInf"

definition float_result ::
  "error + (Point option \<times> dist \<times> nat) \<Rightarrow> error + (Point_f option \<times> f64 \<times> nat)" where
  "float_result x =
     (case x of
        Inl e \<Rightarrow> Inl e
      | Inr (n, d, nv) \<Rightarrow> Inr (map_option (map Fl) n, float_dist d, nv))"

definition float_tree :: "KdTree \<Rightarrow> KdTree_f" where
  "float_tree t =
     \<lparr>tree_n_f = map_kdNode (map Fl) (tree_n t), Bounds_f = float_box (Bounds t)\<rparr>"

section \<open>Facts about the primitives\<close>

subsection \<open>Sorters\<close>

lemma sort_by_insertion: "sort_by insertion_sorter s xs = sort_key (\<lambda>p. p ! s) xs"
  by transfer simp

lemma sort_by_mset: "mset (sort_by srt s xs) = mset xs"
  by transfer simp

lemma sort_by_sorted:
  "\<forall>p \<in> set xs. s < length p \<Longrightarrow> sorted (map (\<lambda>p. p ! s) (sort_by srt s xs))"
  by transfer simp

text \<open>Where the keys are pairwise different, the sorted order is the same for every sorter.\<close>

lemma sorted_perm_unique:
  fixes f :: "'a \<Rightarrow> real"
  assumes d: "distinct (map f xs)" and m: "mset ys = mset xs" and s: "sorted (map f ys)"
  shows "ys = sort_key f xs"
proof -
  have mm: "mset (map f ys) = mset (map f xs)"
    using m by simp
  have dy: "distinct (map f ys)"
    using d mm mset_eq_imp_distinct_iff by blast
  have "map f ys = map f (sort_key f xs)"
  proof (rule sorted_distinct_set_unique)
    show "sorted (map f ys)" by (rule s)
    show "distinct (map f ys)" by (rule dy)
    show "sorted (map f (sort_key f xs))" by simp
    show "distinct (map f (sort_key f xs))"
      using d by (metis distinct_map distinct_sort set_sort)
    show "set (map f ys) = set (map f (sort_key f xs))"
      using mm by (metis mset_eq_setD mset_map mset_sort)
  qed
  moreover have "inj_on f (set ys \<union> set (sort_key f xs))"
    using d m by (metis distinct_map mset_eq_setD set_sort sup.idem)
  ultimately show ?thesis
    by (rule map_inj_on)
qed

lemma sort_by_distinct:
  "distinct (map (\<lambda>p. p ! s) xs) \<Longrightarrow> \<forall>p \<in> set xs. s < length p \<Longrightarrow>
   sort_by srt s xs = sort_key (\<lambda>p. p ! s) xs"
  by (rule sorted_perm_unique) (simp_all add: sort_by_mset sort_by_sorted)

lemma sort_part_mset: "sort_part srt pts s = Inr xs \<Longrightarrow> mset xs = mset pts"
  by (auto simp: sort_part_def sort_by_mset split: if_splits)

lemma sort_part_sorted:
  assumes "sort_part srt pts s = Inr xs"
  shows "sorted (map (\<lambda>p. p ! s) xs)"
proof (cases "length pts < 2")
  case True
  with assms have "xs = pts" by (simp add: sort_part_def)
  with True show ?thesis
    by (cases xs) (auto simp: length_Suc_conv)
next
  case False
  with assms have "\<forall>p \<in> set pts. s < length p" "xs = sort_by srt s pts"
    by (auto simp: sort_part_def split: if_splits)
  then show ?thesis
    by (simp add: sort_by_sorted)
qed

lemma sort_part_total:
  "\<forall>p \<in> set pts. s < length p \<Longrightarrow> \<exists>xs. sort_part srt pts s = Inr xs"
  by (auto simp: sort_part_def)

subsection \<open>Squared distance\<close>

lemma Sqd_loop_sum:
  "length p \<le> length q \<Longrightarrow>
   Sqd_loop p q i acc = Inr (acc + (\<Sum>j = i..<length p. (p ! j - q ! j) * (p ! j - q ! j)))"
proof (induction p q i acc rule: Sqd_loop.induct)
  case (1 p q i acc)
  show ?case
  proof (cases "i < length p")
    case True
    with "1.prems" have iq: "i < length q" by simp
    from True iq "1.IH" "1.prems"
    have "Sqd_loop p q (i + 1) (acc + (p ! i - q ! i) * (p ! i - q ! i)) =
        Inr (acc + (p ! i - q ! i) * (p ! i - q ! i) +
          (\<Sum>j = i + 1..<length p. (p ! j - q ! j) * (p ! j - q ! j)))"
      by simp
    with True iq show ?thesis
      by (subst Sqd_loop.simps) (simp add: sum.atLeast_Suc_lessThan add.assoc Let_def)
  next
    case False
    then show ?thesis
      by (subst Sqd_loop.simps) simp
  qed
qed

lemma Sqd_loop_short:
  "length q < length p \<Longrightarrow> i \<le> length q \<Longrightarrow> Sqd_loop p q i acc = Inl IndexOutOfRange"
proof (induction p q i acc rule: Sqd_loop.induct)
  case (1 p q i acc)
  show ?case
  proof (cases "i < length q")
    case True
    with "1.prems" have ip: "i < length p" by simp
    from True ip "1.IH" "1.prems"
    have "Sqd_loop p q (i + 1) (acc + (p ! i - q ! i) * (p ! i - q ! i)) = Inl IndexOutOfRange"
      by simp
    with True ip show ?thesis
      by (subst Sqd_loop.simps) (simp add: Let_def)
  next
    case False
    with "1.prems" show ?thesis
      by (subst Sqd_loop.simps) simp
  qed
qed

lemma Sqd_value:
  "length p \<le> length q \<Longrightarrow>
   Sqd p q = Inr (\<Sum>j = 0..<length p. (p ! j - q ! j) * (p ! j - q ! j))"
  by (simp add: Sqd_def Sqd_loop_sum)

lemma Sqd_short: "length q < length p \<Longrightarrow> Sqd p q = Inl IndexOutOfRange"
  by (simp add: Sqd_def Sqd_loop_short)

lemma Sqd_defined_iff: "(\<exists>v. Sqd p q = Inr v) \<longleftrightarrow> length p \<le> length q"
proof (cases "length p \<le> length q")
  case True
  then show ?thesis by (simp add: Sqd_value)
next
  case False
  then show ?thesis by (simp add: Sqd_short)
qed

lemma Sqd_sym: "length p = length q \<Longrightarrow> Sqd p q = Sqd q p"
proof -
  assume l: "length p = length q"
  have "(\<Sum>j = 0..<length p. (p ! j - q ! j) * (p ! j - q ! j)) =
        (\<Sum>j = 0..<length p. (q ! j - p ! j) * (q ! j - p ! j))"
    by (rule sum.cong) (simp_all add: algebra_simps)
  with l show ?thesis
    by (simp add: Sqd_value)
qed

lemma Sqd_ge_coord:
  assumes "Sqd p q = Inr v" and "s < length p"
  shows "(p ! s - q ! s) * (p ! s - q ! s) \<le> v"
proof -
  from assms(1) have l: "length p \<le> length q"
    using Sqd_defined_iff by blast
  with assms(1) have v: "v = (\<Sum>j = 0..<length p. (p ! j - q ! j) * (p ! j - q ! j))"
    by (simp add: Sqd_value)
  have "(p ! s - q ! s) * (p ! s - q ! s) \<le>
      (\<Sum>j \<in> {0..<length p}. (p ! j - q ! j) * (p ! j - q ! j))"
    by (rule member_le_sum) (use assms(2) in simp_all)
  with v show ?thesis by simp
qed

lemma Sqd_self: "Sqd q q = Inr 0"
  by (simp add: Sqd_value)

lemma Sqd_pos:
  assumes "Sqd p q = Inr v" and "length p = length q" and "p \<noteq> q"
  shows "0 < v"
proof -
  from assms(2,3) obtain j where j: "j < length p" "p ! j \<noteq> q ! j"
    using nth_equalityI by blast
  then have "0 < (p ! j - q ! j) * (p ! j - q ! j)"
    by (simp add: zero_less_mult_iff less_le)
  also from assms(1) j(1) have "\<dots> \<le> v"
    by (rule Sqd_ge_coord)
  finally show ?thesis .
qed

text \<open>A point beyond the splitting hyperplane is at least as far from the target, in
  the split coordinate, as the hyperplane is.\<close>

lemma sq_far_right:
  fixes p q t :: real
  shows "t \<le> p \<Longrightarrow> p \<le> q \<Longrightarrow> (p - t) * (p - t) \<le> (q - t) * (q - t)"
  by (intro mult_mono) simp_all

lemma sq_far_left:
  fixes p q t :: real
  assumes "p < t" "q \<le> p"
  shows "(p - t) * (p - t) \<le> (q - t) * (q - t)"
proof -
  from assms have "(t - p) * (t - p) \<le> (t - q) * (t - q)"
    by (intro mult_mono) simp_all
  then show ?thesis
    by (simp add: algebra_simps)
qed

lemma dlt_PInf_iff [simp]: "dlt d PInf \<longleftrightarrow> d \<noteq> PInf"
  by (cases d) simp_all

lemma tighten_PInf [simp]: "tighten d PInf = d"
  by (cases d) (simp_all add: tighten_def)

section \<open>Facts about the search\<close>

text \<open>The equation of \<open>nn\<close> at a node, with the local variables substituted.\<close>

lemma nn_Node:
  "nn (KdNode pivot s l r) target hr B =
    (if s < length pivot \<and> s < length target \<and> s < length (hrMax hr) \<and> s < length (hrMin hr)
     then
       case nn (if target ! s \<le> pivot ! s then l else r) target
               (if target ! s \<le> pivot ! s then leftBox hr s (pivot ! s)
                else rightBox hr s (pivot ! s)) B of
         Inl e \<Rightarrow> Inl e
       | Inr (n1, d1, nv1) \<Rightarrow>
           if dlt (tighten d1 B) (Fin ((pivot ! s - target ! s) * (pivot ! s - target ! s)))
           then Inr (n1, d1, 1 + nv1)
           else
             case Sqd pivot target of
               Inl e \<Rightarrow> Inl e
             | Inr v \<Rightarrow>
                 (case nn (if target ! s \<le> pivot ! s then r else l) target
                          (if target ! s \<le> pivot ! s then rightBox hr s (pivot ! s)
                           else leftBox hr s (pivot ! s))
                          (if dlt (Fin v) d1 then Fin v else tighten d1 B) of
                    Inl e \<Rightarrow> Inl e
                  | Inr (n3, d3, nv3) \<Rightarrow>
                      if dlt d3 (if dlt (Fin v) d1 then Fin v else d1)
                      then Inr (n3, d3, 1 + nv1 + nv3)
                      else Inr (if dlt (Fin v) d1 then Some pivot else n1,
                                if dlt (Fin v) d1 then Fin v else d1, 1 + nv1 + nv3))
     else Inl IndexOutOfRange)"
proof (cases "s < length pivot \<and> s < length target \<and> s < length (hrMax hr) \<and> s < length (hrMin hr)")
  case True
  then show ?thesis
    by (cases "target ! s \<le> pivot ! s")
       (simp_all add: Let_def leftBox_def rightBox_def tighten_def Copy_def
          split: sum.split prod.split)
next
  case False
  then show ?thesis
    by (auto simp: Let_def Copy_def)
qed

declare nn.simps(2) [simp del]

lemma nn_NodeE:
  assumes "nn (KdNode pivot s l r) target hr B = Inr res"
  obtains
    (pruned) nearK farK nearHr n1 d1 nv1 where
      "s < length pivot" "s < length target" "s < length (hrMax hr)" "s < length (hrMin hr)"
      "(target ! s \<le> pivot ! s \<and> nearK = l \<and> farK = r \<and> nearHr = leftBox hr s (pivot ! s)) \<or>
       (\<not> target ! s \<le> pivot ! s \<and> nearK = r \<and> farK = l \<and> nearHr = rightBox hr s (pivot ! s))"
      "nn nearK target nearHr B = Inr (n1, d1, nv1)"
      "dlt (tighten d1 B) (Fin ((pivot ! s - target ! s) * (pivot ! s - target ! s)))"
      "res = (n1, d1, 1 + nv1)"
  | (searched) nearK farK nearHr farHr n1 d1 nv1 v n3 d3 nv3 where
      "s < length pivot" "s < length target" "s < length (hrMax hr)" "s < length (hrMin hr)"
      "(target ! s \<le> pivot ! s \<and> nearK = l \<and> farK = r \<and>
          nearHr = leftBox hr s (pivot ! s) \<and> farHr = rightBox hr s (pivot ! s)) \<or>
       (\<not> target ! s \<le> pivot ! s \<and> nearK = r \<and> farK = l \<and>
          nearHr = rightBox hr s (pivot ! s) \<and> farHr = leftBox hr s (pivot ! s))"
      "nn nearK target nearHr B = Inr (n1, d1, nv1)"
      "\<not> dlt (tighten d1 B) (Fin ((pivot ! s - target ! s) * (pivot ! s - target ! s)))"
      "Sqd pivot target = Inr v"
      "nn farK target farHr (if dlt (Fin v) d1 then Fin v else tighten d1 B) = Inr (n3, d3, nv3)"
      "res = (if dlt d3 (if dlt (Fin v) d1 then Fin v else d1) then (n3, d3, 1 + nv1 + nv3)
              else (if dlt (Fin v) d1 then Some pivot else n1,
                    if dlt (Fin v) d1 then Fin v else d1, 1 + nv1 + nv3))"
proof -
  from assms have g: "s < length pivot" "s < length target"
      "s < length (hrMax hr)" "s < length (hrMin hr)"
    by (simp_all add: nn_Node split: if_splits)
  show thesis
  proof (cases "target ! s \<le> pivot ! s")
    case True
    with assms g obtain n1 d1 nv1 where
      n: "nn l target (leftBox hr s (pivot ! s)) B = Inr (n1, d1, nv1)"
      by (auto simp: nn_Node split: sum.splits)
    show thesis
    proof (cases "dlt (tighten d1 B) (Fin ((pivot ! s - target ! s) * (pivot ! s - target ! s)))")
      case p: True
      with assms g True n have "res = (n1, d1, 1 + nv1)"
        by (simp add: nn_Node)
      with g True n p show thesis
        by (intro pruned [of l r "leftBox hr s (pivot ! s)" n1 d1 nv1]) simp_all
    next
      case p: False
      with assms g True n obtain v where v: "Sqd pivot target = Inr v"
        by (auto simp: nn_Node split: sum.splits)
      with assms g True n p obtain n3 d3 nv3 where
        f: "nn r target (rightBox hr s (pivot ! s))
              (if dlt (Fin v) d1 then Fin v else tighten d1 B) = Inr (n3, d3, nv3)"
        by (auto simp: nn_Node split: sum.splits)
      with assms g True n p v have
        "res = (if dlt d3 (if dlt (Fin v) d1 then Fin v else d1) then (n3, d3, 1 + nv1 + nv3)
              else (if dlt (Fin v) d1 then Some pivot else n1,
                    if dlt (Fin v) d1 then Fin v else d1, 1 + nv1 + nv3))"
        by (simp add: nn_Node split: if_splits)
      with g True n p v f show thesis
        by (intro searched [of l r "leftBox hr s (pivot ! s)" "rightBox hr s (pivot ! s)"
              n1 d1 nv1 v n3 d3 nv3]) simp_all
    qed
  next
    case False
    with assms g obtain n1 d1 nv1 where
      n: "nn r target (rightBox hr s (pivot ! s)) B = Inr (n1, d1, nv1)"
      by (auto simp: nn_Node split: sum.splits)
    show thesis
    proof (cases "dlt (tighten d1 B) (Fin ((pivot ! s - target ! s) * (pivot ! s - target ! s)))")
      case p: True
      with assms g False n have "res = (n1, d1, 1 + nv1)"
        by (simp add: nn_Node)
      with g False n p show thesis
        by (intro pruned [of r l "rightBox hr s (pivot ! s)" n1 d1 nv1]) simp_all
    next
      case p: False
      with assms g False n obtain v where v: "Sqd pivot target = Inr v"
        by (auto simp: nn_Node split: sum.splits)
      with assms g False n p obtain n3 d3 nv3 where
        f: "nn l target (leftBox hr s (pivot ! s))
              (if dlt (Fin v) d1 then Fin v else tighten d1 B) = Inr (n3, d3, nv3)"
        by (auto simp: nn_Node split: sum.splits)
      with assms g False n p v have
        "res = (if dlt d3 (if dlt (Fin v) d1 then Fin v else d1) then (n3, d3, 1 + nv1 + nv3)
              else (if dlt (Fin v) d1 then Some pivot else n1,
                    if dlt (Fin v) d1 then Fin v else d1, 1 + nv1 + nv3))"
        by (simp add: nn_Node split: if_splits)
      with g False n p v f show thesis
        by (intro searched [of r l "rightBox hr s (pivot ! s)" "leftBox hr s (pivot ! s)"
              n1 d1 nv1 v n3 d3 nv3]) simp_all
    qed
  qed
qed

lemma nn_found:
  "nn kd target hr B = Inr (n, d, nv) \<Longrightarrow> found kd target n d"
proof (induction kd arbitrary: hr B n d nv)
  case KdNil
  then show ?case by (simp add: found_def)
next
  case (KdNode pivot s l r)
  from KdNode.prems show ?case
  proof (cases rule: nn_NodeE)
    case (pruned nearK farK nearHr n1 d1 nv1)
    then have "found nearK target n1 d1"
      using KdNode.IH by blast
    with pruned show ?thesis
      by (auto simp: found_def)
  next
    case (searched nearK farK nearHr farHr n1 d1 nv1 v n3 d3 nv3)
    then have "found nearK target n1 d1" "found farK target n3 d3"
      using KdNode.IH by blast+
    with searched show ?thesis
      by (auto simp: found_def split: if_splits)
  qed
qed

lemma nn_root_some:
  assumes "nn (KdNode pivot s l r) target hr PInf = Inr (n, d, nv)"
  shows "\<exists>p. n = Some p"
  using assms
proof (cases rule: nn_NodeE)
  case (pruned nearK farK nearHr n1 d1 nv1)
  from pruned(6) have "found nearK target n1 d1"
    by (rule nn_found)
  moreover from pruned(7) have "d1 \<noteq> PInf"
    by auto
  ultimately show ?thesis
    using pruned(8) by (auto simp: found_def)
next
  case (searched nearK farK nearHr farHr n1 d1 nv1 v n3 d3 nv3)
  from searched(6) have "found nearK target n1 d1"
    by (rule nn_found)
  moreover from searched(9) have "found farK target n3 d3"
    by (rule nn_found)
  ultimately show ?thesis
    using searched(10) by (cases d1; cases d3) (auto simp: found_def split: if_splits)
qed

lemma nn_short_target:
  assumes "nn kd target hr B = Inr (n, d, nv)" and "\<forall>p \<in> points kd. length target < length p"
  shows "n = None \<and> d = PInf"
proof -
  from assms(1) have "found kd target n d" by (rule nn_found)
  with assms(2) show ?thesis
    by (auto simp: found_def Sqd_short)
qed

lemma leftBox_lengths [simp]:
  "length (hrMin (leftBox hr s v)) = length (hrMin hr)"
  "length (hrMax (leftBox hr s v)) = length (hrMax hr)"
  by (simp_all add: leftBox_def Copy_def)

lemma rightBox_lengths [simp]:
  "length (hrMin (rightBox hr s v)) = length (hrMin hr)"
  "length (hrMax (rightBox hr s v)) = length (hrMax hr)"
  by (simp_all add: rightBox_def Copy_def)

text \<open>The outcome of the search, panics included, depends on the box only through the
  lengths of its corners.\<close>

lemma nn_box_lengths:
  "length (hrMin hr1) = length (hrMin hr2) \<Longrightarrow> length (hrMax hr1) = length (hrMax hr2) \<Longrightarrow>
   nn kd target hr1 B = nn kd target hr2 B"
proof (induction kd arbitrary: hr1 hr2 B)
  case KdNil
  show ?case by simp
next
  case (KdNode pivot s l r)
  have l: "nn l target (leftBox hr1 s (pivot ! s)) B' = nn l target (leftBox hr2 s (pivot ! s)) B'"
    "nn l target (rightBox hr1 s (pivot ! s)) B' = nn l target (rightBox hr2 s (pivot ! s)) B'"
    for B'
    using KdNode.prems by (auto intro: KdNode.IH(1))
  have r: "nn r target (leftBox hr1 s (pivot ! s)) B' = nn r target (leftBox hr2 s (pivot ! s)) B'"
    "nn r target (rightBox hr1 s (pivot ! s)) B' = nn r target (rightBox hr2 s (pivot ! s)) B'"
    for B'
    using KdNode.prems by (auto intro: KdNode.IH(2))
  show ?case
    by (cases "target ! s \<le> pivot ! s")
       (simp_all add: nn_Node KdNode.prems l r split: sum.split prod.split)
qed

text \<open>Two searches that both return agree, whatever the two boxes are.\<close>

lemma nn_box_irrelevant:
  "nn kd target hr1 B = Inr r1 \<Longrightarrow> nn kd target hr2 B = Inr r2 \<Longrightarrow> r1 = r2"
proof (induction kd arbitrary: hr1 hr2 B r1 r2)
  case KdNil
  then show ?case by simp
next
  case (KdNode pivot s l r)
  from KdNode.prems(1) show ?case
  proof (cases rule: nn_NodeE)
    case p1: (pruned nearK farK nearHr n1 d1 nv1)
    from KdNode.prems(2) show ?thesis
    proof (cases rule: nn_NodeE)
      case p2: (pruned nearK' farK' nearHr' n1' d1' nv1')
      from p1(5) p2(5) have "nearK' = nearK" by auto
      with p1(6) p2(6) KdNode.IH p1(5) have "(n1, d1, nv1) = (n1', d1', nv1')"
        by blast
      with p1(8) p2(8) show ?thesis by simp
    next
      case s2: (searched nearK' farK' nearHr' farHr' n1' d1' nv1' v n3 d3 nv3)
      from p1(5) s2(5) have "nearK' = nearK" by auto
      with p1(6) s2(6) KdNode.IH p1(5) have "(n1, d1, nv1) = (n1', d1', nv1')"
        by blast
      with p1(7) s2(7) show ?thesis by simp
    qed
  next
    case s1: (searched nearK farK nearHr farHr n1 d1 nv1 v n3 d3 nv3)
    from KdNode.prems(2) show ?thesis
    proof (cases rule: nn_NodeE)
      case p2: (pruned nearK' farK' nearHr' n1' d1' nv1')
      from s1(5) p2(5) have "nearK' = nearK" by auto
      with s1(6) p2(6) KdNode.IH s1(5) have "(n1, d1, nv1) = (n1', d1', nv1')"
        by blast
      with s1(7) p2(7) show ?thesis by simp
    next
      case s2: (searched nearK' farK' nearHr' farHr' n1' d1' nv1' v' n3' d3' nv3')
      from s1(5) s2(5) have k: "nearK' = nearK" "farK' = farK" by auto
      with s1(6) s2(6) KdNode.IH s1(5) have n: "(n1, d1, nv1) = (n1', d1', nv1')"
        by blast
      from s1(8) s2(8) have v: "v' = v" by simp
      from s1(9) s2(9) k n v KdNode.IH s1(5) have "(n3, d3, nv3) = (n3', d3', nv3')"
        by blast
      with s1(10) s2(10) n v show ?thesis by simp
    qed
  qed
qed

lemma dims_points: "dims k kd \<Longrightarrow> p \<in> points kd \<Longrightarrow> length p = k"
  by (induction kd) auto

lemma nn_total:
  "dims k kd \<Longrightarrow> k \<le> length target \<Longrightarrow> k \<le> length (hrMin hr) \<Longrightarrow>
   k \<le> length (hrMax hr) \<Longrightarrow> \<exists>res. nn kd target hr B = Inr res"
proof (induction kd arbitrary: hr B)
  case KdNil
  show ?case by simp
next
  case (KdNode pivot s l r)
  from KdNode.prems have g: "s < length pivot" "s < length target"
      "s < length (hrMax hr)" "s < length (hrMin hr)" "length pivot \<le> length target"
    by simp_all
  from g(5) obtain v where v: "Sqd pivot target = Inr v"
    using Sqd_defined_iff by blast
  have l: "\<exists>res. nn l target (leftBox hr s (pivot ! s)) B' = Inr res"
    "\<exists>res. nn l target (rightBox hr s (pivot ! s)) B' = Inr res" for B'
    using KdNode.prems KdNode.IH(1) [of _ B'] by simp_all
  have r: "\<exists>res. nn r target (leftBox hr s (pivot ! s)) B' = Inr res"
    "\<exists>res. nn r target (rightBox hr s (pivot ! s)) B' = Inr res" for B'
    using KdNode.prems KdNode.IH(2) [of _ B'] by simp_all
  show ?case
  proof (cases "target ! s \<le> pivot ! s")
    case True
    from l(1) obtain n1 d1 nv1 where
      n: "nn l target (leftBox hr s (pivot ! s)) B = Inr (n1, d1, nv1)"
      by (metis prod_cases3)
    from r(2) obtain n3 d3 nv3 where
      "nn r target (rightBox hr s (pivot ! s))
         (if dlt (Fin v) d1 then Fin v else tighten d1 B) = Inr (n3, d3, nv3)"
      by (metis prod_cases3)
    with True g v n show ?thesis
      by (simp add: nn_Node)
  next
    case False
    from r(2) obtain n1 d1 nv1 where
      n: "nn r target (rightBox hr s (pivot ! s)) B = Inr (n1, d1, nv1)"
      by (metis prod_cases3)
    from l(1) obtain n3 d3 nv3 where
      "nn l target (leftBox hr s (pivot ! s))
         (if dlt (Fin v) d1 then Fin v else tighten d1 B) = Inr (n3, d3, nv3)"
      by (metis prod_cases3)
    with False g v n show ?thesis
      by (simp add: nn_Node)
  qed
qed

text \<open>No stored point is nearer than both the returned distance and the bound.\<close>

lemma nn_optimal:
  assumes "nn kd target hr B = Inr (n, d, nv)" and "partition_inv k kd" and "dims k kd"
    and "q \<in> points kd" and "Sqd q target = Inr w"
  shows "\<not> dlt (Fin w) (tighten d B)"
  using assms
proof (induction kd arbitrary: hr B n d nv)
  case KdNil
  then show ?case by simp
next
  case (KdNode pivot s l r)
  from KdNode.prems(3) have ls: "s < length pivot" "dims k l" "dims k r" "length pivot = k"
    by simp_all
  from KdNode.prems(2) have inv: "partition_inv k l" "partition_inv k r"
    "\<forall>q \<in> points l. q ! s \<le> pivot ! s" "\<forall>q \<in> points r. pivot ! s \<le> q ! s"
    by simp_all
  have qs: "s < length q"
    using KdNode.prems(3,4) dims_points ls by (metis KdNode.prems(3))
  have coord: "(q ! s - target ! s) * (q ! s - target ! s) \<le> w"
    using KdNode.prems(5) qs by (rule Sqd_ge_coord)
  from KdNode.prems(1) show ?case
  proof (cases rule: nn_NodeE)
    case (pruned nearK farK nearHr n1 d1 nv1)
    have near: "q \<in> points nearK \<Longrightarrow> \<not> dlt (Fin w) (tighten d1 B)"
      using pruned(5,6) KdNode.IH inv ls KdNode.prems(5) by blast
    have far: "(pivot ! s - target ! s) * (pivot ! s - target ! s) \<le> w"
      if "q = pivot \<or> q \<in> points farK"
    proof (cases "target ! s \<le> pivot ! s")
      case True
      with pruned(5) that inv(4) have "pivot ! s \<le> q ! s"
        by auto
      with True coord sq_far_right [of "target ! s" "pivot ! s" "q ! s"] show ?thesis
        by simp
    next
      case False
      with pruned(5) that inv(3) have "q ! s \<le> pivot ! s"
        by auto
      with False coord sq_far_left [of "pivot ! s" "target ! s" "q ! s"] show ?thesis
        by simp
    qed
    from KdNode.prems(4) pruned(5) have "q = pivot \<or> q \<in> points farK \<or> q \<in> points nearK"
      by auto
    with near far pruned(7,8) show ?thesis
      by (cases d1; cases B) (auto simp: tighten_def split: if_splits)
  next
    case (searched nearK farK nearHr farHr n1 d1 nv1 v n3 d3 nv3)
    have near: "q \<in> points nearK \<Longrightarrow> \<not> dlt (Fin w) (tighten d1 B)"
      using searched(5,6) KdNode.IH inv ls KdNode.prems(5) by blast
    have far: "q \<in> points farK \<Longrightarrow>
        \<not> dlt (Fin w) (tighten d3 (if dlt (Fin v) d1 then Fin v else tighten d1 B))"
      using searched(5,9) KdNode.IH inv ls KdNode.prems(5) by blast
    have piv: "q = pivot \<Longrightarrow> w = v"
      using searched(8) KdNode.prems(5) by simp
    from KdNode.prems(4) searched(5) have "q = pivot \<or> q \<in> points farK \<or> q \<in> points nearK"
      by auto
    with near far piv searched(10) show ?thesis
      by (cases d1; cases B; cases d3) (auto simp: tighten_def split: if_splits)
  qed
qed

section \<open>Facts about the construction\<close>

lemma advance_key:
  "advance xs s d m = Inr m' \<Longrightarrow> m' = m \<or> xs ! m' ! s = d ! s"
proof (induction xs s d m rule: advance.induct)
  case (1 exset split d m)
  show ?case
  proof (cases "m + 1 < length exset \<and> split < length (exset ! (m + 1)) \<and> split < length d
      \<and> exset ! (m + 1) ! split = d ! split")
    case True
    with "1.prems" have a: "advance exset split d (m + 1) = Inr m'"
      by (subst (asm) advance.simps) simp
    with True "1.IH" have "m' = m + 1 \<or> exset ! m' ! split = d ! split"
      by simp
    with True show ?thesis by auto
  next
    case False
    with "1.prems" have "m' = m"
      by (subst (asm) advance.simps) (auto split: if_splits)
    then show ?thesis by simp
  qed
qed

lemma advance_total:
  "\<forall>p \<in> set xs. s < length p \<Longrightarrow> s < length d \<Longrightarrow> \<exists>m'. advance xs s d m = Inr m'"
proof (induction xs s d m rule: advance.induct)
  case (1 exset split d m)
  show ?case
  proof (cases "m + 1 < length exset")
    case True
    with "1.prems" have g: "split < length (exset ! (m + 1)) \<and> split < length d"
      by simp
    show ?thesis
    proof (cases "exset ! (m + 1) ! split = d ! split")
      case e: True
      with True g "1.IH" "1.prems" obtain m' where "advance exset split d (m + 1) = Inr m'"
        by blast
      with True g e show ?thesis
        by (subst advance.simps) simp
    next
      case False
      with True g show ?thesis
        by (subst advance.simps) simp
    qed
  next
    case False
    then show ?thesis
      by (subst advance.simps) simp
  qed
qed

lemma nk2_Nil [simp]: "nk2 srt [] split = Inr (KdNil, [])"
  by (simp add: nk2.simps)

lemma nk2E:
  assumes "nk2 srt exset split = Inr (node, exset')" and "exset \<noteq> []"
  obtains xs m l ls r rs where
    "sort_part srt exset split = Inr xs"
    "advance xs split (xs ! (length xs div 2)) (length xs div 2) = Inr m"
    "nk2 srt (take m xs)
       (if split + 1 = length (xs ! (length xs div 2)) then 0 else split + 1) = Inr (l, ls)"
    "nk2 srt (drop (m + 1) xs)
       (if split + 1 = length (xs ! (length xs div 2)) then 0 else split + 1) = Inr (r, rs)"
    "node = KdNode (xs ! (length xs div 2)) split l r"
    "exset' = ls @ [xs ! m] @ rs"
  using assms
  by (subst (asm) nk2.simps) (auto simp: Let_def split: sum.splits prod.splits)

lemma nk2_mset:
  "nk2 srt exset split = Inr (node, exset') \<Longrightarrow> mset exset' = mset exset"
proof (induction "length exset" arbitrary: exset split node exset' rule: less_induct)
  case less
  show ?case
  proof (cases "exset = []")
    case True
    with less.prems show ?thesis by simp
  next
    case False
    with less.prems obtain xs m l ls r rs where
      so: "sort_part srt exset split = Inr xs" and
      adv: "advance xs split (xs ! (length xs div 2)) (length xs div 2) = Inr m" and
      lc: "nk2 srt (take m xs)
        (if split + 1 = length (xs ! (length xs div 2)) then 0 else split + 1) = Inr (l, ls)" and
      rc: "nk2 srt (drop (m + 1) xs)
        (if split + 1 = length (xs ! (length xs div 2)) then 0 else split + 1) = Inr (r, rs)" and
      ex: "exset' = ls @ [xs ! m] @ rs"
      by (rule nk2E)
    from so have len: "length xs = length exset" by (rule length_sort_part)
    with False have "length xs div 2 < length xs" by simp
    with adv have m: "m < length xs"
      using advance_bounds by blast
    with len lc less.hyps have l: "mset ls = mset (take m xs)" by simp
    from len False rc less.hyps have r: "mset rs = mset (drop (m + 1) xs)" by simp
    from m have "mset (take m xs @ xs ! m # drop (Suc m) xs) = mset xs"
      by (simp only: Cons_nth_drop_Suc append_take_drop_id)
    with l r ex have "mset exset' = mset xs" by simp
    with so show ?thesis by (simp add: sort_part_mset)
  qed
qed

lemma sorted_key_take:
  fixes f :: "'a \<Rightarrow> real"
  assumes "sorted (map f xs)" "m < length xs" "q \<in> set (take m xs)"
  shows "f q \<le> f (xs ! m)"
proof -
  from assms(2,3) obtain i where i: "i < m" "q = xs ! i"
    by (auto simp: in_set_conv_nth)
  with assms(1,2) have "map f xs ! i \<le> map f xs ! m"
    by (intro sorted_nth_mono) simp_all
  with i assms(2) show ?thesis by simp
qed

lemma sorted_key_drop:
  fixes f :: "'a \<Rightarrow> real"
  assumes "sorted (map f xs)" "m < length xs" "q \<in> set (drop (m + 1) xs)"
  shows "f (xs ! m) \<le> f q"
proof -
  from assms(3) obtain i where i: "i < length xs - (m + 1)" "q = xs ! (m + 1 + i)"
    by (auto simp: in_set_conv_nth)
  with assms(1,2) have "map f xs ! m \<le> map f xs ! (m + 1 + i)"
    by (intro sorted_nth_mono) simp_all
  with i assms(2) show ?thesis by simp
qed

lemma nk2_tree:
  assumes "nk2 srt exset split = Inr (node, exset')"
    and "\<forall>p \<in> set exset. length p = k" and "split < k"
  shows "points node \<subseteq> set exset \<and> dims k node \<and> partition_inv k node \<and>
         child_split k (split + k - 1) node \<and> (node = KdNil \<longleftrightarrow> exset = [])"
  using assms
proof (induction "length exset" arbitrary: exset split node exset' rule: less_induct)
  case less
  show ?case
  proof (cases "exset = []")
    case True
    with less.prems show ?thesis by simp
  next
    case False
    with less.prems(1) obtain xs m l ls r rs where
      so: "sort_part srt exset split = Inr xs" and
      adv: "advance xs split (xs ! (length xs div 2)) (length xs div 2) = Inr m" and
      lc: "nk2 srt (take m xs)
        (if split + 1 = length (xs ! (length xs div 2)) then 0 else split + 1) = Inr (l, ls)" and
      rc: "nk2 srt (drop (m + 1) xs)
        (if split + 1 = length (xs ! (length xs div 2)) then 0 else split + 1) = Inr (r, rs)" and
      node: "node = KdNode (xs ! (length xs div 2)) split l r"
      by (rule nk2E)
    define d where "d = xs ! (length xs div 2)"
    define s2 where "s2 = (if split + 1 = length d then 0 else split + 1)"
    from so have len: "length xs = length exset" by (rule length_sort_part)
    from so have "mset xs = mset exset" by (rule sort_part_mset)
    then have set: "set xs = set exset" by (rule mset_eq_setD)
    from len False have m0: "length xs div 2 < length xs" by simp
    with adv have m: "length xs div 2 \<le> m" "m < length xs"
      using advance_bounds by blast+
    from m0 set less.prems(2) have dk: "length d = k" "d \<in> set exset"
      by (auto simp: d_def)
    with less.prems(3) have s2: "s2 < k" "s2 = (split + 1) mod k"
      by (auto simp: s2_def)
    from adv have key: "xs ! m ! split = d ! split"
      using advance_key [of xs split d "length xs div 2" m] by (auto simp: d_def)
    have sorted: "sorted (map (\<lambda>p. p ! split) xs)"
      using so by (rule sort_part_sorted)
    have tk: "\<forall>p \<in> set (take m xs). length p = k"
      using set less.prems(2) by (auto dest: in_set_takeD)
    have dr: "\<forall>p \<in> set (drop (m + 1) xs). length p = k"
      using set less.prems(2) by (auto dest: in_set_dropD)
    from lc have lc': "nk2 srt (take m xs) s2 = Inr (l, ls)"
      by (simp add: s2_def d_def)
    from rc have rc': "nk2 srt (drop (m + 1) xs) s2 = Inr (r, rs)"
      by (simp add: s2_def d_def)
    have L: "points l \<subseteq> set (take m xs) \<and> dims k l \<and> partition_inv k l \<and>
        child_split k (s2 + k - 1) l \<and> (l = KdNil \<longleftrightarrow> take m xs = [])"
      using less.hyps [OF _ lc' tk s2(1)] m(2) len by simp
    have R: "points r \<subseteq> set (drop (m + 1) xs) \<and> dims k r \<and> partition_inv k r \<and>
        child_split k (s2 + k - 1) r \<and> (r = KdNil \<longleftrightarrow> drop (m + 1) xs = [])"
      using less.hyps [OF _ rc' dr s2(1)] m(2) len False by simp
    have cs: "child_split k (s2 + k - 1) c \<Longrightarrow> child_split k split c" for c
      using s2 less.prems(3) by (cases c) (auto simp: mod_simps)
    have le: "\<forall>q \<in> points l. q ! split \<le> d ! split"
    proof
      fix q assume "q \<in> points l"
      with L have "q \<in> set (take m xs)" by auto
      with sorted m(2) have "q ! split \<le> xs ! m ! split"
        by (rule sorted_key_take)
      with key show "q ! split \<le> d ! split" by simp
    qed
    have ge: "\<forall>q \<in> points r. d ! split \<le> q ! split"
    proof
      fix q assume "q \<in> points r"
      with R have "q \<in> set (drop (m + 1) xs)" by auto
      with sorted m(2) have "xs ! m ! split \<le> q ! split"
        by (rule sorted_key_drop)
      with key show "d ! split \<le> q ! split" by simp
    qed
    have sub: "points node \<subseteq> set exset"
      using L R dk set node by (auto simp: d_def dest: in_set_takeD in_set_dropD)
    have root: "child_split k (split + k - 1) node"
      using node less.prems(3) by (simp add: mod_simps)
    from node dk less.prems(3) L R cs le ge sub root False show ?thesis
      by (simp add: d_def)
  qed
qed

lemma nk2_total:
  assumes "\<forall>p \<in> set exset. length p = k" and "split < k"
  shows "\<exists>res. nk2 srt exset split = Inr res"
  using assms
proof (induction "length exset" arbitrary: exset split rule: less_induct)
  case less
  show ?case
  proof (cases "exset = []")
    case True
    then show ?thesis by simp
  next
    case False
    from less.prems obtain xs where so: "sort_part srt exset split = Inr xs"
      using sort_part_total [of exset split srt] by auto
    define d where "d = xs ! (length xs div 2)"
    define s2 where "s2 = (if split + 1 = length d then 0 else split + 1)"
    from so have len: "length xs = length exset" by (rule length_sort_part)
    from so have "mset xs = mset exset" by (rule sort_part_mset)
    then have set: "set xs = set exset" by (rule mset_eq_setD)
    from len False have m0: "length xs div 2 < length xs" by simp
    with set less.prems have dk: "length d = k"
      by (auto simp: d_def)
    with less.prems(2) have s2: "s2 < k"
      by (auto simp: s2_def)
    from set less.prems dk obtain m where
      adv: "advance xs split d (length xs div 2) = Inr m"
      using advance_total [of xs split d "length xs div 2"] by auto
    with m0 have m: "m < length xs"
      using advance_bounds by blast
    have tk: "\<forall>p \<in> set (take m xs). length p = k"
      using set less.prems(1) by (auto dest: in_set_takeD)
    have dr: "\<forall>p \<in> set (drop (m + 1) xs). length p = k"
      using set less.prems(1) by (auto dest: in_set_dropD)
    obtain l ls where lc: "nk2 srt (take m xs) s2 = Inr (l, ls)"
      using less.hyps [OF _ tk s2] m len by auto
    obtain r rs where rc: "nk2 srt (drop (m + 1) xs) s2 = Inr (r, rs)"
      using less.hyps [OF _ dr s2] len False by auto
    from False so adv lc rc show ?thesis
      by (subst nk2.simps) (simp add: Let_def d_def s2_def)
  qed
qed

lemma New_total:
  assumes "\<forall>p \<in> set pts. length p = k" and "0 < k"
  shows "\<exists>t pts'. New srt pts bounds = Inr (t, pts')"
proof -
  from assms obtain node pts' where "nk2 srt pts 0 = Inr (node, pts')"
    using nk2_total [of pts k 0 srt] by auto
  then show ?thesis by (simp add: New_def)
qed

lemma New_tree:
  assumes "New srt pts bounds = Inr (t, pts')"
    and "\<forall>p \<in> set pts. length p = k" and "0 < k"
  shows "points (tree_n t) \<subseteq> set pts" "dims k (tree_n t)" "partition_inv k (tree_n t)"
    "tree_n t = KdNil \<longleftrightarrow> pts = []" "Bounds t = bounds"
    "child_split k (k - 1) (tree_n t)"
proof -
  from assms(1) have n: "nk2 srt pts 0 = Inr (tree_n t, pts')" and b: "Bounds t = bounds"
    by (auto simp: New_def split: sum.splits)
  from nk2_tree [OF n assms(2,3)]
  show "points (tree_n t) \<subseteq> set pts" "dims k (tree_n t)" "partition_inv k (tree_n t)"
    "tree_n t = KdNil \<longleftrightarrow> pts = []" "child_split k (k - 1) (tree_n t)"
    by simp_all
  show "Bounds t = bounds" by (rule b)
qed

lemma Nearest_total:
  assumes "dims k (tree_n t)" "k \<le> length target"
    "k \<le> length (hrMin (Bounds t))" "k \<le> length (hrMax (Bounds t))"
  shows "\<exists>n d nv. Nearest t target = Inr (n, d, nv)"
  using nn_total [OF assms, of PInf] by (auto simp: Nearest_def)

subsection \<open>Equal and distinct coordinates\<close>

text \<open>
  The loss of a point does not depend on how the sort orders equal keys: whatever the
  sorter, the tree built from \<open>(1, 0)\<close>, \<open>(1, 1)\<close>, \<open>(1, 2)\<close> lacks the point that the sort
  left at index 2, and the query for that point returns another point, at a positive
  distance.
\<close>

lemma tie_loses_point:
  "\<exists>t pts' q p v nv.
     New srt [[1, 0], [1, 1], [1, 2]] \<lparr>hrMin = [0, 0], hrMax = [10, 10]\<rparr> = Inr (t, pts') \<and>
     q \<in> set [[1, 0], [1, 1], [1, 2]] \<and> Sqd q q = Inr 0 \<and>
     Nearest t q = Inr (Some p, Fin v, nv) \<and> 0 < v"
proof -
  let ?pts = "[[1, 0], [1, 1], [1, 2 :: real]]"
  let ?b = "\<lparr>hrMin = [0, 0], hrMax = [10, 10]\<rparr>"
  have len2: "\<forall>p \<in> set ?pts. length p = 2" by simp
  then obtain t pts' where new: "New srt ?pts ?b = Inr (t, pts')"
    using New_total [of ?pts 2 srt ?b] by auto
  have "0 < (2 :: nat)" by simp
  note tr = New_tree [OF new len2 this]
  from new have n: "nk2 srt ?pts 0 = Inr (tree_n t, pts')"
    by (auto simp: New_def split: sum.splits)
  then obtain xs m l ls r rs where
    so: "sort_part srt ?pts 0 = Inr xs" and
    adv: "advance xs 0 (xs ! (length xs div 2)) (length xs div 2) = Inr m" and
    lc: "nk2 srt (take m xs)
        (if 0 + 1 = length (xs ! (length xs div 2)) then 0 else 0 + 1) = Inr (l, ls)" and
    rc: "nk2 srt (drop (m + 1) xs)
        (if 0 + 1 = length (xs ! (length xs div 2)) then 0 else 0 + 1) = Inr (r, rs)" and
    node: "tree_n t = KdNode (xs ! (length xs div 2)) 0 l r"
    by (rule nk2E) simp
  from so have lx: "length xs = 3" using length_sort_part by fastforce
  from so have ms: "mset xs = mset ?pts" by (rule sort_part_mset)
  then have sx: "set xs = set ?pts" by (rule mset_eq_setD)
  have "distinct ?pts" by simp
  with ms have dx: "distinct xs" using mset_eq_imp_distinct_iff by blast
  from sx have keys: "\<forall>p \<in> set xs. p ! 0 = 1 \<and> length p = 2" by auto
  with lx have k: "xs ! i ! 0 = 1 \<and> length (xs ! i) = 2" if "i < 3" for i
    using that by simp
  have "advance xs 0 (xs ! 1) 1 = advance xs 0 (xs ! 1) (1 + 1)"
    using lx k [of 1] k [of "Suc (Suc 0)"] by (subst advance.simps) simp
  also have "\<dots> = Inr 2"
    using lx by (subst advance.simps) simp
  finally have "advance xs 0 (xs ! 1) 1 = Inr 2" .
  with adv lx have m: "m = 2" by simp
  from rc m lx have r: "r = KdNil" by simp
  have tk: "\<forall>p \<in> set (take m xs). length p = 2"
    using keys by (auto dest: in_set_takeD)
  from lc k [of 1] lx have "nk2 srt (take m xs) 1 = Inr (l, ls)" by simp
  from nk2_tree [OF this tk] have pl: "points l \<subseteq> set (take m xs)" by simp
  from m lx have "take m xs = [xs ! 0, xs ! 1]"
    by (cases xs; simp; cases "tl xs"; simp; cases "tl (tl xs)"; simp) 
  with pl node r lx have pts: "points (tree_n t) \<subseteq> {xs ! 0, xs ! 1}"
    by auto
  define q where "q = xs ! 2"
  from dx lx have "q \<noteq> xs ! 0" "q \<noteq> xs ! 1"
    by (simp_all add: q_def nth_eq_iff_index_eq)
  with pts have qn: "q \<notin> points (tree_n t)" by auto
  from lx have "xs ! 2 \<in> set xs" by (intro nth_mem) simp
  with sx have qs: "q \<in> set ?pts"
    unfolding q_def by blast
  with len2 have lq: "length q = 2" by blast
  from tr(2,5) lq obtain n d nv where res: "Nearest t q = Inr (n, d, nv)"
    using Nearest_total [of 2 t q] by auto
  from node res obtain p where p: "n = Some p"
    using nn_root_some [of "xs ! (length xs div 2)" 0 l r q "Bounds t" n d nv]
    by (auto simp: Nearest_def)
  from res have "found (tree_n t) q n d"
    unfolding Nearest_def by (rule nn_found)
  with p obtain v where v: "p \<in> points (tree_n t)" "Sqd p q = Inr v" "d = Fin v"
    by (auto simp: found_def)
  from tr(2) v(1) have "length p = 2" by (rule dims_points)
  with v(1,2) qn lq have "0 < v"
    by (intro Sqd_pos [of p q v]) auto
  with new qs res p v(3) show ?thesis
    using Sqd_self by blast
qed

text \<open>
  Where no two points agree in a coordinate, the loop never moves \<open>m\<close>, every input
  point is stored, and the search is optimal over the input.
\<close>

lemma distinct_keys_perm:
  fixes f :: "'a \<Rightarrow> real"
  shows "mset xs = mset ys \<Longrightarrow> distinct (map f ys) \<Longrightarrow> distinct (map f xs)"
proof -
  assume "mset xs = mset ys" and d: "distinct (map f ys)"
  then have "mset (map f xs) = mset (map f ys)" by simp
  with d show ?thesis using mset_eq_imp_distinct_iff by blast
qed

lemma nk2_stores_all:
  assumes "nk2 srt exset split = Inr (node, exset')"
    and "\<forall>p \<in> set exset. length p = k" and "split < k"
    and "\<forall>s < k. distinct (map (\<lambda>p. p ! s) exset)"
  shows "points node = set exset"
  using assms
proof (induction "length exset" arbitrary: exset split node exset' rule: less_induct)
  case less
  show ?case
  proof (cases "exset = []")
    case True
    with less.prems show ?thesis by simp
  next
    case False
    with less.prems(1) obtain xs m l ls r rs where
      so: "sort_part srt exset split = Inr xs" and
      adv: "advance xs split (xs ! (length xs div 2)) (length xs div 2) = Inr m" and
      lc: "nk2 srt (take m xs)
        (if split + 1 = length (xs ! (length xs div 2)) then 0 else split + 1) = Inr (l, ls)" and
      rc: "nk2 srt (drop (m + 1) xs)
        (if split + 1 = length (xs ! (length xs div 2)) then 0 else split + 1) = Inr (r, rs)" and
      node: "node = KdNode (xs ! (length xs div 2)) split l r"
      by (rule nk2E)
    define s2 where "s2 = (if split + 1 = length (xs ! (length xs div 2)) then 0 else split + 1)"
    from so have len: "length xs = length exset" by (rule length_sort_part)
    from so have ms: "mset xs = mset exset" by (rule sort_part_mset)
    then have set: "set xs = set exset" by (rule mset_eq_setD)
    from len False have m0: "length xs div 2 < length xs" by simp
    with adv have m: "m < length xs"
      using advance_bounds by blast
    have dist: "\<forall>s < k. distinct (map (\<lambda>p. p ! s) xs)"
      using ms less.prems(4) distinct_keys_perm by blast
    from m0 set less.prems(2) have "length (xs ! (length xs div 2)) = k"
      by auto
    with less.prems(3) have s2: "s2 < k"
      by (auto simp: s2_def)
    have "m = length xs div 2"
    proof (rule ccontr)
      assume ne: "m \<noteq> length xs div 2"
      with adv have "xs ! m ! split = xs ! (length xs div 2) ! split"
        using advance_key by blast
      with m m0 have "map (\<lambda>p. p ! split) xs ! m = map (\<lambda>p. p ! split) xs ! (length xs div 2)"
        by simp
      moreover from dist less.prems(3) have "distinct (map (\<lambda>p. p ! split) xs)"
        by simp
      ultimately have "m = length xs div 2"
        using m m0 nth_eq_iff_index_eq [of "map (\<lambda>p. p ! split) xs" m "length xs div 2"]
        by simp
      with ne show False by simp
    qed
    with node have node': "node = KdNode (xs ! m) split l r" by simp
    have tk: "\<forall>p \<in> set (take m xs). length p = k"
      using set less.prems(2) by (auto dest: in_set_takeD)
    have dr: "\<forall>p \<in> set (drop (m + 1) xs). length p = k"
      using set less.prems(2) by (auto dest: in_set_dropD)
    have dtk: "\<forall>s < k. distinct (map (\<lambda>p. p ! s) (take m xs))"
      using dist by (simp add: take_map [symmetric])
    have ddr: "\<forall>s < k. distinct (map (\<lambda>p. p ! s) (drop (m + 1) xs))"
      using dist by (simp add: drop_map [symmetric])
    from lc have lc': "nk2 srt (take m xs) s2 = Inr (l, ls)" by (simp add: s2_def)
    from rc have rc': "nk2 srt (drop (m + 1) xs) s2 = Inr (r, rs)" by (simp add: s2_def)
    have L: "points l = set (take m xs)"
      using less.hyps [OF _ lc' tk s2 dtk] m len by simp
    have R: "points r = set (drop (m + 1) xs)"
      using less.hyps [OF _ rc' dr s2 ddr] len False by simp
    from m have "set (take m xs @ xs ! m # drop (Suc m) xs) = set xs"
      by (simp only: Cons_nth_drop_Suc append_take_drop_id)
    with node' L R set show ?thesis by auto
  qed
qed

lemma nearest_optimal_distinct_keys:
  assumes "\<forall>p \<in> set pts. length p = k" and "0 < k" and "length target = k"
    and "k \<le> length (hrMin bounds)" and "k \<le> length (hrMax bounds)"
    and "\<forall>s < k. distinct (map (\<lambda>p. p ! s) pts)"
  shows "\<exists>t pts' n d nv. New srt pts bounds = Inr (t, pts') \<and>
     Nearest t target = Inr (n, d, nv) \<and>
     (\<forall>q \<in> set pts. \<forall>w. Sqd q target = Inr w \<longrightarrow> \<not> dlt (Fin w) d)"
proof -
  from assms(1,2) obtain t pts' where new: "New srt pts bounds = Inr (t, pts')"
    using New_total by blast
  note tr = New_tree [OF new assms(1,2)]
  from new have "nk2 srt pts 0 = Inr (tree_n t, pts')"
    by (auto simp: New_def split: sum.splits)
  from nk2_stores_all [OF this assms(1,2,6)] have all: "points (tree_n t) = set pts" .
  from tr(2,5) assms(3,4,5) obtain n d nv where res: "Nearest t target = Inr (n, d, nv)"
    using Nearest_total [of k t target] by auto
  have "\<not> dlt (Fin w) d" if "q \<in> set pts" "Sqd q target = Inr w" for q w
  proof -
    from res have "nn (tree_n t) target (Bounds t) PInf = Inr (n, d, nv)"
      by (simp add: Nearest_def)
    from nn_optimal [OF this tr(3,2) _ that(2)] that(1) all show ?thesis
      by simp
  qed
  with new res show ?thesis by blast
qed

section \<open>Facts about the store\<close>

lemma frame_refl [simp]: "frame h h"
  by (simp add: frame_def)

lemma frame_trans:
  assumes "frame h1 h2" and "frame h2 h3"
  shows "frame h1 h3"
proof -
  from assms have l: "length h1 \<le> length h2" "length h2 \<le> length h3"
    and t: "take (length h1) h2 = h1" "take (length h2) h3 = h2"
    by (simp_all add: frame_def)
  have "take (length h1) (take (length h2) h3) = take (length h1) h3"
    using l(1) by (simp add: min_def)
  with t have "take (length h1) h3 = h1" by simp
  with l show ?thesis by (simp add: frame_def)
qed

lemma frame_append [simp]: "frame h (h @ xs)"
  by (simp add: frame_def)

lemma frame_update: "length h \<le> a \<Longrightarrow> frame h h' \<Longrightarrow> frame h (h'[a := v])"
  by (simp add: frame_def)

lemma frame_nth:
  assumes "frame h h'" and "a < length h"
  shows "h' ! a = h ! a"
proof -
  from assms(2) have "take (length h) h' ! a = h' ! a" by simp
  with assms(1) show ?thesis by (simp add: frame_def)
qed

lemma length_contents [simp]: "wf_slice h sl \<Longrightarrow> length (contents h sl) = len sl"
  by (simp add: contents_def wf_slice_def)

lemma nth_contents: "wf_slice h sl \<Longrightarrow> i < len sl \<Longrightarrow> contents h sl ! i = h ! (ptr sl + i)"
  by (simp add: contents_def wf_slice_def)

lemma wf_slice_frame: "wf_slice h sl \<Longrightarrow> frame h h' \<Longrightarrow> wf_slice h' sl"
  by (simp add: wf_slice_def frame_def)

lemma contents_frame:
  assumes "wf_slice h sl" and "frame h h'"
  shows "contents h' sl = contents h sl"
proof (rule nth_equalityI)
  from assms have w: "wf_slice h' sl" by (rule wf_slice_frame)
  with assms(1) show "length (contents h' sl) = length (contents h sl)"
    by simp
  fix i assume "i < length (contents h' sl)"
  with w have i: "i < len sl" by simp
  with assms(1) have "ptr sl + i < length h" by (simp add: wf_slice_def)
  with assms(2) have "h' ! (ptr sl + i) = h ! (ptr sl + i)" by (rule frame_nth)
  with w assms(1) i show "contents h' sl ! i = contents h sl ! i"
    by (simp add: nth_contents)
qed

lemma index_h_contents:
  "wf_slice h sl \<Longrightarrow>
   index_h h sl i = (if i < length (contents h sl) then Inr (contents h sl ! i)
                     else Inl IndexOutOfRange)"
  by (simp add: index_h_def nth_contents)

lemma index_h_frame:
  "wf_slice h sl \<Longrightarrow> frame h h' \<Longrightarrow> index_h h' sl i = index_h h sl i"
proof -
  assume w: "wf_slice h sl" and f: "frame h h'"
  then have "wf_slice h' sl" "contents h' sl = contents h sl"
    by (rule wf_slice_frame, rule contents_frame)
  with w show ?thesis
    by (simp only: index_h_contents)
qed

lemma contents_update_out:
  "a < ptr sl \<or> ptr sl + len sl \<le> a \<Longrightarrow> contents (h[a := v]) sl = contents h sl"
proof (cases "a < ptr sl")
  case True
  then show ?thesis
    by (simp add: contents_def)
next
  case False
  moreover assume "a < ptr sl \<or> ptr sl + len sl \<le> a"
  ultimately have "ptr sl + len sl \<le> a" by simp
  then have "take (len sl) (drop (ptr sl) (h[a := v])) =
      take (len sl) ((drop (ptr sl) h)[a - ptr sl := v])"
    by (simp only: drop_update_swap [of "ptr sl" a h v])
  also from \<open>ptr sl + len sl \<le> a\<close> have "\<dots> = take (len sl) (drop (ptr sl) h)"
    by (intro take_update_cancel) simp
  finally show ?thesis
    by (simp only: contents_def)
qed

lemma contents_update_in:
  "i < len sl \<Longrightarrow> contents (h[ptr sl + i := v]) sl = (contents h sl)[i := v]"
proof -
  assume i: "i < len sl"
  have "take (len sl) (drop (ptr sl) (h[ptr sl + i := v])) =
      take (len sl) ((drop (ptr sl) h)[i := v])"
    using drop_update_swap [of "ptr sl" "ptr sl + i" h v] by simp
  also have "\<dots> = (take (len sl) (drop (ptr sl) h))[i := v]"
    by (rule take_update_swap)
  finally show ?thesis
    by (simp only: contents_def)
qed

lemma contents_new:
  "contents (h @ xs @ ys) \<lparr>ptr = length h, len = length xs\<rparr> = xs"
  by (simp add: contents_def)

lemma box_frame:
  assumes "wf_box h hr" and "frame h h'"
  shows "box h' hr = box h hr"
  using assms(1) by (simp add: box_def wf_box_def contents_frame [OF _ assms(2)])

lemma wf_box_frame: "wf_box h hr \<Longrightarrow> frame h h' \<Longrightarrow> wf_box h' hr"
  by (auto simp: wf_box_def intro: wf_slice_frame)

lemma Copy_h_eq:
  "Copy_h hr h =
     (\<lparr>hMin = \<lparr>ptr = length h, len = len (hMin hr)\<rparr>,
       hMax = \<lparr>ptr = length (h @ contents h (hMin hr)), len = len (hMax hr)\<rparr>\<rparr>,
      (h @ contents h (hMin hr)) @ contents (h @ contents h (hMin hr)) (hMax hr))"
  by (simp add: Copy_h_def append_new_def)

lemma Copy_h_frame: "Copy_h hr h = (c, h') \<Longrightarrow> frame h h'"
  by (auto simp: Copy_h_eq frame_def)

lemma Copy_h_fresh:
  "Copy_h hr h = (c, h') \<Longrightarrow> length h \<le> ptr (hMin c) \<and> length h \<le> ptr (hMax c)"
  by (auto simp: Copy_h_eq)

lemma narrow_h_frame:
  assumes "narrow_h hr pivot s h = Inr (leftHr, rightHr, h2)"
  shows "frame h h2"
proof -
  obtain c1 h1 where c1: "Copy_h hr h = (c1, h1)" by (cases "Copy_h hr h")
  obtain c2 h1' where c2: "Copy_h hr h1 = (c2, h1')" by (cases "Copy_h hr h1")
  from c1 have f1: "frame h h1" by (rule Copy_h_frame)
  from c2 have f2: "frame h1 h1'" by (rule Copy_h_frame)
  from f1 f2 have f: "frame h h1'" by (rule frame_trans)
  from c1 have p1: "length h \<le> ptr (hMax c1)" using Copy_h_fresh by blast
  from c2 f1 have p2: "length h \<le> ptr (hMin c2)"
    using Copy_h_fresh [of hr h1 c2 h1'] by (simp add: frame_def)
  from assms c1 c2 obtain v v' where
    "h2 = h1'[ptr (hMax c1) + s := v, ptr (hMin c2) + s := v']"
    by (auto simp: narrow_h_def assign_h_def split: sum.splits if_splits)
  with f p1 p2 show ?thesis
    by (simp add: frame_update)
qed

lemma narrow_h_total:
  "s < len pivot \<Longrightarrow> s < len (hMin hr) \<Longrightarrow> s < len (hMax hr) \<Longrightarrow>
   \<exists>leftHr rightHr h2. narrow_h hr pivot s h = Inr (leftHr, rightHr, h2)"
  by (simp add: narrow_h_def Copy_h_eq index_h_def assign_h_def)

lemma leftBox_eq: "leftBox hr s v = \<lparr>hrMin = hrMin hr, hrMax = (hrMax hr)[s := v]\<rparr>"
  by (simp add: leftBox_def Copy_def)

lemma rightBox_eq: "rightBox hr s v = \<lparr>hrMin = (hrMin hr)[s := v], hrMax = hrMax hr\<rparr>"
  by (simp add: rightBox_def Copy_def)

lemma narrow_h_boxes:
  assumes wb: "wf_box h hr" and wp: "wf_slice h pivot"
    and na: "narrow_h hr pivot s h = Inr (leftHr, rightHr, h2)"
  obtains v where "index_h h pivot s = Inr v"
    "box h2 leftHr = leftBox (box h hr) s v" "box h2 rightHr = rightBox (box h hr) s v"
    "wf_box h2 leftHr" "wf_box h2 rightHr"
    "s < len (hMin hr)" "s < len (hMax hr)"
proof -
  define a where "a = contents h (hMin hr)"
  define b where "b = contents h (hMax hr)"
  from wb have la: "length a = len (hMin hr)" and lb: "length b = len (hMax hr)"
    by (simp_all add: a_def b_def wf_box_def)
  from wb have wmin: "wf_slice h (hMin hr)" and wmax: "wf_slice h (hMax hr)"
    by (simp_all add: wf_box_def)
  define h1 where "h1 = h @ a @ b"
  define h1' where "h1' = h1 @ a @ b"
  define c1 where "c1 = \<lparr>hMin = \<lparr>ptr = length h, len = length a\<rparr>,
      hMax = \<lparr>ptr = length h + length a, len = length b\<rparr>\<rparr>"
  define c2 where "c2 = \<lparr>hMin = \<lparr>ptr = length h1, len = length a\<rparr>,
      hMax = \<lparr>ptr = length h1 + length a, len = length b\<rparr>\<rparr>"
  have "contents (h @ a) (hMax hr) = b"
    unfolding b_def using wmax by (intro contents_frame) simp_all
  then have C1: "Copy_h hr h = (c1, h1)"
    by (simp add: Copy_h_eq c1_def h1_def a_def [symmetric] la lb)
  have f1: "frame h h1" by (simp add: h1_def)
  have "contents h1 (hMin hr) = a"
    unfolding a_def using wmin f1 by (rule contents_frame)
  moreover have "contents (h1 @ a) (hMax hr) = b"
    unfolding b_def using wmax by (intro contents_frame) (simp_all add: h1_def frame_def)
  ultimately have C2: "Copy_h hr h1 = (c2, h1')"
    by (simp add: Copy_h_eq c2_def h1'_def la lb)
  have f1': "frame h h1'" by (simp add: h1'_def h1_def frame_def)
  from na C1 C2 obtain v where
    v1: "index_h h1' pivot s = Inr v" and s2: "s < length b"
    by (auto simp: narrow_h_def assign_h_def c1_def split: sum.splits if_splits)
  define h1'' where "h1'' = h1'[length h + length a + s := v]"
  have f1'': "frame h h1''"
    unfolding h1''_def using f1' by (intro frame_update) simp_all
  from wp f1' have "index_h h1' pivot s = index_h h pivot s" by (rule index_h_frame)
  with v1 have v: "index_h h pivot s = Inr v" by simp
  from wp f1'' have "index_h h1'' pivot s = index_h h pivot s" by (rule index_h_frame)
  with v have v2: "index_h h1'' pivot s = Inr v" by simp
  from na C1 C2 v1 s2 v2 have s1: "s < length a"
    and res: "leftHr = c1" "rightHr = c2" "h2 = h1''[length h1 + s := v]"
    by (auto simp: narrow_h_def assign_h_def c1_def c2_def h1''_def split: if_splits)
  have lh1: "length h1 = length h + length a + length b"
    by (simp add: h1_def)
  have k1: "contents h2 (hMin c1) = a"
  proof -
    have "contents h2 (hMin c1) = contents h1' (hMin c1)"
      using s1 s2 by (simp add: res(3) h1''_def c1_def lh1 contents_update_out)
    also have "h1' = h @ a @ (b @ a @ b)"
      by (simp add: h1'_def h1_def)
    also have "contents (h @ a @ (b @ a @ b)) (hMin c1) = a"
      unfolding c1_def by (simp add: contents_new)
    finally show ?thesis .
  qed
  have k2: "contents h2 (hMax c1) = b[s := v]"
  proof -
    have "contents h2 (hMax c1) = contents h1'' (hMax c1)"
      using s1 s2 by (simp add: res(3) c1_def lh1 contents_update_out)
    also have "\<dots> = (contents h1' (hMax c1))[s := v]"
      using s2 contents_update_in [of s "hMax c1" h1' v] by (simp add: h1''_def c1_def)
    also have "h1' = (h @ a) @ b @ (a @ b)"
      by (simp add: h1'_def h1_def)
    also have "contents ((h @ a) @ b @ (a @ b)) (hMax c1) = b"
      using contents_new [of "h @ a" b "a @ b"] by (simp add: c1_def)
    finally show ?thesis .
  qed
  have k3: "contents h2 (hMin c2) = a[s := v]"
  proof -
    have "contents h2 (hMin c2) = (contents h1'' (hMin c2))[s := v]"
      using s1 contents_update_in [of s "hMin c2" h1'' v] by (simp add: res(3) c2_def)
    also have "contents h1'' (hMin c2) = contents h1' (hMin c2)"
      using s2 by (simp add: h1''_def c2_def lh1 contents_update_out)
    also have "h1' = h1 @ a @ b"
      by (simp add: h1'_def)
    also have "contents (h1 @ a @ b) (hMin c2) = a"
      unfolding c2_def by (simp add: contents_new)
    finally show ?thesis .
  qed
  have k4: "contents h2 (hMax c2) = b"
  proof -
    have "contents h2 (hMax c2) = contents h1' (hMax c2)"
      using s1 s2 by (simp add: res(3) h1''_def c2_def lh1 contents_update_out)
    also have "h1' = (h1 @ a) @ b @ []"
      by (simp add: h1'_def)
    also have "contents ((h1 @ a) @ b @ []) (hMax c2) = b"
      using contents_new [of "h1 @ a" b "[]"] by (simp add: c2_def)
    finally show ?thesis .
  qed
  have lh2: "length h2 = length h + 2 * length a + 2 * length b"
    by (simp add: res(3) h1''_def h1'_def h1_def)
  show thesis
  proof (rule that [of v])
    show "index_h h pivot s = Inr v" by (rule v)
    show "box h2 leftHr = leftBox (box h hr) s v"
      by (simp add: box_def leftBox_eq res(1) k1 k2 a_def b_def)
    show "box h2 rightHr = rightBox (box h hr) s v"
      by (simp add: box_def rightBox_eq res(2) k3 k4 a_def b_def)
    show "wf_box h2 leftHr"
      by (simp add: wf_box_def wf_slice_def res(1) c1_def lh2)
    show "wf_box h2 rightHr"
      by (simp add: wf_box_def wf_slice_def res(2) c2_def lh2 lh1)
    from s1 la show "s < len (hMin hr)" by simp
    from s2 lb show "s < len (hMax hr)" by simp
  qed
qed

lemma Sqd_h_loop_contents:
  "wf_slice h p \<Longrightarrow> wf_slice h q \<Longrightarrow>
   Sqd_h_loop h p q i acc = Sqd_loop (contents h p) (contents h q) i acc"
proof (induction h p q i acc rule: Sqd_h_loop.induct)
  case (1 h p q i acc)
  show ?case
  proof (cases "i < len p \<and> i < len q")
    case True
    with "1.prems" "1.IH" have
      "Sqd_h_loop h p q (i + 1) (acc + (h ! (ptr p + i) - h ! (ptr q + i)) *
          (h ! (ptr p + i) - h ! (ptr q + i))) =
       Sqd_loop (contents h p) (contents h q) (i + 1)
         (acc + (h ! (ptr p + i) - h ! (ptr q + i)) * (h ! (ptr p + i) - h ! (ptr q + i)))"
      by simp
    with True "1.prems" show ?thesis
      by (subst Sqd_h_loop.simps, subst Sqd_loop.simps) (simp add: Let_def nth_contents)
  next
    case False
    with "1.prems" show ?thesis
      by (subst Sqd_h_loop.simps, subst Sqd_loop.simps) auto
  qed
qed

lemma Sqd_h_contents:
  "wf_slice h p \<Longrightarrow> wf_slice h q \<Longrightarrow> Sqd_h h p q = Sqd (contents h p) (contents h q)"
  by (simp add: Sqd_h_def Sqd_def Sqd_h_loop_contents)

lemma map_kdNode_points_cong:
  "\<forall>p \<in> points kd. f p = g p \<Longrightarrow> map_kdNode f kd = map_kdNode g kd"
  by (induction kd) simp_all

lemma nn_h_NodeE:
  assumes "nn_h (KdNode pivot s l r) target hr B h = Inr (res, h')"
  obtains
    (pruned) leftHr rightHr h2 ts ps n1 d1 nv1 h3 ps' ts' where
      "narrow_h hr pivot s h = Inr (leftHr, rightHr, h2)"
      "index_h h2 target s = Inr ts" "index_h h2 pivot s = Inr ps"
      "nn_h (if ts \<le> ps then l else r) target (if ts \<le> ps then leftHr else rightHr) B h2 =
         Inr ((n1, d1, nv1), h3)"
      "index_h h3 pivot s = Inr ps'" "index_h h3 target s = Inr ts'"
      "dlt (tighten d1 B) (Fin ((ps' - ts') * (ps' - ts')))"
      "res = (n1, d1, 1 + nv1)" "h' = h3"
  | (searched) leftHr rightHr h2 ts ps n1 d1 nv1 h3 ps' ts' v n3 d3 nv3 where
      "narrow_h hr pivot s h = Inr (leftHr, rightHr, h2)"
      "index_h h2 target s = Inr ts" "index_h h2 pivot s = Inr ps"
      "nn_h (if ts \<le> ps then l else r) target (if ts \<le> ps then leftHr else rightHr) B h2 =
         Inr ((n1, d1, nv1), h3)"
      "index_h h3 pivot s = Inr ps'" "index_h h3 target s = Inr ts'"
      "\<not> dlt (tighten d1 B) (Fin ((ps' - ts') * (ps' - ts')))"
      "Sqd_h h3 pivot target = Inr v"
      "nn_h (if ts \<le> ps then r else l) target (if ts \<le> ps then rightHr else leftHr)
         (if dlt (Fin v) d1 then Fin v else tighten d1 B) h3 = Inr ((n3, d3, nv3), h')"
      "res = (if dlt d3 (if dlt (Fin v) d1 then Fin v else d1) then (n3, d3, 1 + nv1 + nv3)
              else (if dlt (Fin v) d1 then Some pivot else n1,
                    if dlt (Fin v) d1 then Fin v else d1, 1 + nv1 + nv3))"
proof -
  from assms obtain leftHr rightHr h2 where
    na: "narrow_h hr pivot s h = Inr (leftHr, rightHr, h2)"
    by (auto split: sum.splits)
  with assms obtain ts where ts: "index_h h2 target s = Inr ts"
    by (auto split: sum.splits)
  with assms na obtain ps where ps: "index_h h2 pivot s = Inr ps"
    by (auto split: sum.splits)
  with assms na ts obtain n1 d1 nv1 h3 where
    near: "nn_h (if ts \<le> ps then l else r) target (if ts \<le> ps then leftHr else rightHr) B h2 =
         Inr ((n1, d1, nv1), h3)"
    by (auto simp: Let_def split: sum.splits)
  with assms na ts ps obtain ps' where ps': "index_h h3 pivot s = Inr ps'"
    by (auto simp: Let_def split: sum.splits)
  with assms na ts ps near obtain ts' where ts': "index_h h3 target s = Inr ts'"
    by (auto simp: Let_def split: sum.splits)
  show thesis
  proof (cases "dlt (tighten d1 B) (Fin ((ps' - ts') * (ps' - ts')))")
    case True
    with assms na ts ps near ps' ts' have "res = (n1, d1, 1 + nv1)" "h' = h3"
      by (simp_all add: Let_def tighten_def)
    with na ts ps near ps' ts' True show thesis
      by (rule pruned)
  next
    case False
    with assms na ts ps near ps' ts' obtain v where v: "Sqd_h h3 pivot target = Inr v"
      by (auto simp: Let_def tighten_def split: sum.splits)
    with assms na ts ps near ps' ts' False obtain n3 d3 nv3 where
      far: "nn_h (if ts \<le> ps then r else l) target (if ts \<le> ps then rightHr else leftHr)
         (if dlt (Fin v) d1 then Fin v else tighten d1 B) h3 = Inr ((n3, d3, nv3), h')"
      by (auto simp: Let_def tighten_def split: sum.splits if_splits)
    with assms na ts ps near ps' ts' False v have
      "res = (if dlt d3 (if dlt (Fin v) d1 then Fin v else d1) then (n3, d3, 1 + nv1 + nv3)
              else (if dlt (Fin v) d1 then Some pivot else n1,
                    if dlt (Fin v) d1 then Fin v else d1, 1 + nv1 + nv3))"
      by (simp add: Let_def tighten_def split: if_splits)
    with na ts ps near ps' ts' False v far show thesis
      by (rule searched)
  qed
qed

lemma nn_h_frame:
  "nn_h kd target hr B h = Inr (res, h') \<Longrightarrow> frame h h'"
proof (induction kd arbitrary: hr B h res h')
  case KdNil
  then show ?case by simp
next
  case (KdNode pivot s l r)
  from KdNode.prems show ?case
  proof (cases rule: nn_h_NodeE)
    case (pruned leftHr rightHr h2 ts ps n1 d1 nv1 h3 ps' ts')
    from pruned(1) have "frame h h2" by (rule narrow_h_frame)
    moreover from pruned(4) have "frame h2 h3"
      using KdNode.IH by (cases "ts \<le> ps") simp_all
    ultimately show ?thesis
      using pruned(9) frame_trans by blast
  next
    case (searched leftHr rightHr h2 ts ps n1 d1 nv1 h3 ps' ts' v n3 d3 nv3)
    from searched(1) have "frame h h2" by (rule narrow_h_frame)
    moreover from searched(4) have "frame h2 h3"
      using KdNode.IH by (cases "ts \<le> ps") simp_all
    moreover from searched(9) have "frame h3 h'"
      using KdNode.IH by (cases "ts \<le> ps") simp_all
    ultimately show ?thesis
      using frame_trans by blast
  qed
qed

text \<open>
  The search on the store computes what \<open>nn\<close> computes on the contents of the slices:
  whenever it returns, \<open>nn\<close> returns the same distance and visit count and the contents
  of the returned slice, which is the pivot of a node.
\<close>

lemma nn_h_refines:
  assumes "nn_h kd target hr B h = Inr ((n, d, nv), h')"
    and "\<forall>p \<in> points kd. wf_slice h p" and "wf_slice h target" and "wf_box h hr"
  shows "nn (map_kdNode (contents h) kd) (contents h target) (box h hr) B =
           Inr (map_option (contents h) n, d, nv) \<and>
         (\<forall>p. n = Some p \<longrightarrow> p \<in> points kd)"
  using assms
proof (induction kd arbitrary: hr B h n d nv h')
  case KdNil
  then show ?case by simp
next
  case (KdNode pivot s l r)
  let ?A = "map_kdNode (contents h)"
  let ?T = "contents h target"
  let ?P = "contents h pivot"
  let ?B = "box h hr"
  from KdNode.prems(2) have wp: "wf_slice h pivot"
    and wl: "\<forall>p \<in> points l. wf_slice h p" and wr: "\<forall>p \<in> points r. wf_slice h p"
    by simp_all
  note wt = KdNode.prems(3) and wb = KdNode.prems(4)
  have step: "nn (?A k) ?T bx B' = Inr (map_option (contents h) n', d', nv') \<and>
      (\<forall>p. n' = Some p \<longrightarrow> p \<in> points k)"
    if call: "nn_h k target hr' B' g = Inr ((n', d', nv'), g')" and k: "k = l \<or> k = r"
      and fr: "frame h g" and wh: "wf_box g hr'" and bx: "box g hr' = bx"
    for k hr' B' g n' d' nv' g' bx
  proof -
    from k wl wr have wk: "\<forall>p \<in> points k. wf_slice h p" by auto
    with fr have wkg: "\<forall>p \<in> points k. wf_slice g p" by (auto intro: wf_slice_frame)
    from wt fr have wtg: "wf_slice g target" by (rule wf_slice_frame)
    have ih: "nn (map_kdNode (contents g) k) (contents g target) (box g hr') B' =
        Inr (map_option (contents g) n', d', nv') \<and> (\<forall>p. n' = Some p \<longrightarrow> p \<in> points k)"
    proof (cases "k = l")
      case True
      with call have "nn_h l target hr' B' g = Inr ((n', d', nv'), g')" by simp
      from KdNode.IH(1) [OF this _ wtg wh] wkg True show ?thesis by simp
    next
      case False
      with k call have "nn_h r target hr' B' g = Inr ((n', d', nv'), g')" by simp
      from KdNode.IH(2) [OF this _ wtg wh] wkg False k show ?thesis by simp
    qed
    have "map_kdNode (contents g) k = ?A k"
      using wk by (intro map_kdNode_points_cong) (simp add: contents_frame [OF _ fr])
    moreover have "contents g target = ?T"
      using wt fr by (rule contents_frame)
    moreover have "map_option (contents g) n' = map_option (contents h) n'"
      using ih wk by (cases n') (simp_all add: contents_frame [OF _ fr])
    ultimately show ?thesis
      using ih bx by simp
  qed
  have common:
    "s < length ?P \<and> s < length ?T \<and> s < length (hrMax ?B) \<and> s < length (hrMin ?B) \<and>
     ts = ?T ! s \<and> ps = ?P ! s \<and> ps' = ?P ! s \<and> ts' = ?T ! s \<and>
     frame h h3 \<and> wf_box h3 leftHr \<and> wf_box h3 rightHr \<and>
     box h3 leftHr = leftBox ?B s (?P ! s) \<and> box h3 rightHr = rightBox ?B s (?P ! s) \<and>
     nn (if ?T ! s \<le> ?P ! s then ?A l else ?A r) ?T
        (if ?T ! s \<le> ?P ! s then leftBox ?B s (?P ! s) else rightBox ?B s (?P ! s)) B =
       Inr (map_option (contents h) n1, d1, nv1) \<and>
     (\<forall>p. n1 = Some p \<longrightarrow> p \<in> points l \<union> points r)"
    if na: "narrow_h hr pivot s h = Inr (leftHr, rightHr, h2)"
      and it: "index_h h2 target s = Inr ts" and ip: "index_h h2 pivot s = Inr ps"
      and near: "nn_h (if ts \<le> ps then l else r) target
          (if ts \<le> ps then leftHr else rightHr) B h2 = Inr ((n1, d1, nv1), h3)"
      and ip': "index_h h3 pivot s = Inr ps'" and it': "index_h h3 target s = Inr ts'"
    for leftHr rightHr h2 ts ps n1 d1 nv1 h3 ps' ts'
  proof -
    from wb wp na obtain v where v: "index_h h pivot s = Inr v"
      and bl: "box h2 leftHr = leftBox ?B s v" and br: "box h2 rightHr = rightBox ?B s v"
      and wfl: "wf_box h2 leftHr" and wfr: "wf_box h2 rightHr"
      and s1: "s < len (hMin hr)" and s2: "s < len (hMax hr)"
      by (rule narrow_h_boxes)
    from na have f2: "frame h h2" by (rule narrow_h_frame)
    from near have f23: "frame h2 h3" by (rule nn_h_frame)
    from f2 f23 have f3: "frame h h3" by (rule frame_trans)
    from it index_h_frame [OF wt f2] have it0: "index_h h target s = Inr ts" by simp
    from ip index_h_frame [OF wp f2] have ip0: "index_h h pivot s = Inr ps" by simp
    from it' index_h_frame [OF wt f3] have it0': "index_h h target s = Inr ts'" by simp
    from ip' index_h_frame [OF wp f3] have ip0': "index_h h pivot s = Inr ps'" by simp
    from it0 wt have T: "s < length ?T" "ts = ?T ! s"
      by (auto simp: index_h_contents split: if_splits)
    from ip0 wp have P: "s < length ?P" "ps = ?P ! s"
      by (auto simp: index_h_contents split: if_splits)
    from it0 it0' ip0 ip0' v have eq: "ts' = ts" "ps' = ps" "v = ps" by simp_all
    from wb s1 s2 have B: "s < length (hrMax ?B)" "s < length (hrMin ?B)"
      by (simp_all add: box_def wf_box_def)
    have nearA: "nn (if ?T ! s \<le> ?P ! s then ?A l else ?A r) ?T
        (if ?T ! s \<le> ?P ! s then leftBox ?B s (?P ! s) else rightBox ?B s (?P ! s)) B =
       Inr (map_option (contents h) n1, d1, nv1) \<and>
     (\<forall>p. n1 = Some p \<longrightarrow> p \<in> points l \<union> points r)"
    proof (cases "ts \<le> ps")
      case True
      with near have "nn_h l target leftHr B h2 = Inr ((n1, d1, nv1), h3)" by simp
      from step [OF this _ f2 wfl bl] True T P eq show ?thesis by simp
    next
      case False
      with near have "nn_h r target rightHr B h2 = Inr ((n1, d1, nv1), h3)" by simp
      from step [OF this _ f2 wfr br] False T P eq show ?thesis by simp
    qed
    from wfl f23 have "wf_box h3 leftHr" by (rule wf_box_frame)
    moreover from wfr f23 have "wf_box h3 rightHr" by (rule wf_box_frame)
    moreover from bl eq P have "box h3 leftHr = leftBox ?B s (?P ! s)"
      by (simp add: box_frame [OF wfl f23])
    moreover from br eq P have "box h3 rightHr = rightBox ?B s (?P ! s)"
      by (simp add: box_frame [OF wfr f23])
    ultimately show ?thesis
      using T P B eq f3 nearA by simp
  qed
  from KdNode.prems(1) show ?case
  proof (cases rule: nn_h_NodeE)
    case (pruned leftHr rightHr h2 ts ps n1 d1 nv1 h3 ps' ts')
    note c = common [OF pruned(1-6)]
    from pruned(7,8) c show ?thesis
      by (simp add: nn_Node)
  next
    case (searched leftHr rightHr h2 ts ps n1 d1 nv1 h3 ps' ts' v n3 d3 nv3)
    note c = common [OF searched(1-6)]
    from c have f3: "frame h h3" by simp
    from wp wt f3 have "wf_slice h3 pivot" "wf_slice h3 target"
      by (auto intro: wf_slice_frame)
    with searched(8) have "Sqd (contents h3 pivot) (contents h3 target) = Inr v"
      by (simp add: Sqd_h_contents)
    with wp wt have sq: "Sqd ?P ?T = Inr v"
      by (simp add: contents_frame [OF _ f3])
    have farA: "nn (if ?T ! s \<le> ?P ! s then ?A r else ?A l) ?T
        (if ?T ! s \<le> ?P ! s then rightBox ?B s (?P ! s) else leftBox ?B s (?P ! s))
        (if dlt (Fin v) d1 then Fin v else tighten d1 B) =
       Inr (map_option (contents h) n3, d3, nv3) \<and>
     (\<forall>p. n3 = Some p \<longrightarrow> p \<in> points l \<union> points r)"
    proof (cases "ts \<le> ps")
      case True
      with searched(9) have "nn_h r target rightHr
          (if dlt (Fin v) d1 then Fin v else tighten d1 B) h3 = Inr ((n3, d3, nv3), h')"
        by simp
      from step [OF this _ f3, of "rightBox ?B s (?P ! s)"] c True show ?thesis by simp
    next
      case False
      with searched(9) have "nn_h l target leftHr
          (if dlt (Fin v) d1 then Fin v else tighten d1 B) h3 = Inr ((n3, d3, nv3), h')"
        by simp
      from step [OF this _ f3, of "leftBox ?B s (?P ! s)"] c False show ?thesis by simp
    qed
    from searched(7,10) c sq farA show ?thesis
      by (auto simp: nn_Node split: if_splits)
  qed
qed

text \<open>Conversely, the search on the store returns whenever \<open>nn\<close> returns on the contents.\<close>

lemma nn_h_total:
  assumes "nn (map_kdNode (contents h) kd) (contents h target) (box h hr) B = Inr res"
    and "\<forall>p \<in> points kd. wf_slice h p" and "wf_slice h target" and "wf_box h hr"
  shows "\<exists>res' h'. nn_h kd target hr B h = Inr (res', h')"
  using assms
proof (induction kd arbitrary: hr B h res)
  case KdNil
  show ?case by simp
next
  case (KdNode pivot s l r)
  let ?A = "map_kdNode (contents h)"
  let ?T = "contents h target"
  let ?P = "contents h pivot"
  let ?B = "box h hr"
  from KdNode.prems(2) have wp: "wf_slice h pivot"
    and wl: "\<forall>p \<in> points l. wf_slice h p" and wr: "\<forall>p \<in> points r. wf_slice h p"
    by simp_all
  note wt = KdNode.prems(3) and wb = KdNode.prems(4)
  from KdNode.prems(1) have abs: "nn (KdNode ?P s (?A l) (?A r)) ?T ?B B = Inr res"
    by simp
  have step: "\<exists>n' d' nv' g'. nn_h k target hr' B' g = Inr ((n', d', nv'), g') \<and>
      ra = (map_option (contents h) n', d', nv')"
    if call: "nn (?A k) ?T bx B' = Inr ra" and k: "k = l \<or> k = r"
      and fr: "frame h g" and wh: "wf_box g hr'" and bx: "box g hr' = bx"
    for k hr' B' g ra bx
  proof -
    from k wl wr have wk: "\<forall>p \<in> points k. wf_slice h p" by auto
    with fr have wkg: "\<forall>p \<in> points k. wf_slice g p" by (auto intro: wf_slice_frame)
    from wt fr have wtg: "wf_slice g target" by (rule wf_slice_frame)
    have "map_kdNode (contents g) k = ?A k"
      using wk by (intro map_kdNode_points_cong) (simp add: contents_frame [OF _ fr])
    moreover have "contents g target = ?T"
      using wt fr by (rule contents_frame)
    ultimately have c: "nn (map_kdNode (contents g) k) (contents g target) (box g hr') B' = Inr ra"
      using call bx by simp
    have "\<exists>res' g'. nn_h k target hr' B' g = Inr (res', g')"
    proof (cases "k = l")
      case True
      with c wkg wtg wh show ?thesis using KdNode.IH(1) [of g hr' B' ra] by simp
    next
      case False
      with k c wkg wtg wh show ?thesis using KdNode.IH(2) [of g hr' B' ra] by simp
    qed
    then obtain n' d' nv' g' where r: "nn_h k target hr' B' g = Inr ((n', d', nv'), g')"
      by (metis prod_cases3)
    from nn_h_refines [OF r wkg wtg wh] c
    have "ra = (map_option (contents g) n', d', nv')" "\<forall>p. n' = Some p \<longrightarrow> p \<in> points k"
      by simp_all
    moreover from this(2) wk have "map_option (contents g) n' = map_option (contents h) n'"
      by (cases n') (simp_all add: contents_frame [OF _ fr])
    ultimately show ?thesis
      using r by simp
  qed
  have node:
    "\<exists>leftHr rightHr h2 n1' h3.
       narrow_h hr pivot s h = Inr (leftHr, rightHr, h2) \<and>
       index_h h2 target s = Inr (?T ! s) \<and> index_h h2 pivot s = Inr (?P ! s) \<and>
       nn_h (if ?T ! s \<le> ?P ! s then l else r) target
            (if ?T ! s \<le> ?P ! s then leftHr else rightHr) B h2 = Inr ((n1', d1, nv1), h3) \<and>
       index_h h3 target s = Inr (?T ! s) \<and> index_h h3 pivot s = Inr (?P ! s) \<and>
       frame h h3 \<and> wf_box h3 leftHr \<and> wf_box h3 rightHr \<and>
       box h3 leftHr = leftBox ?B s (?P ! s) \<and> box h3 rightHr = rightBox ?B s (?P ! s)"
    if g: "s < length ?P" "s < length ?T" "s < length (hrMax ?B)" "s < length (hrMin ?B)"
      and near: "nn (if ?T ! s \<le> ?P ! s then ?A l else ?A r) ?T
          (if ?T ! s \<le> ?P ! s then leftBox ?B s (?P ! s) else rightBox ?B s (?P ! s)) B =
        Inr (n1, d1, nv1)"
    for n1 d1 nv1
  proof -
    from g wp wt wb have gl: "s < len pivot" "s < len target" "s < len (hMax hr)"
        "s < len (hMin hr)"
      by (simp_all add: box_def wf_box_def)
    then obtain leftHr rightHr h2 where na: "narrow_h hr pivot s h = Inr (leftHr, rightHr, h2)"
      using narrow_h_total by blast
    from wb wp na obtain v where v: "index_h h pivot s = Inr v"
      and bl: "box h2 leftHr = leftBox ?B s v" and br: "box h2 rightHr = rightBox ?B s v"
      and wfl: "wf_box h2 leftHr" and wfr: "wf_box h2 rightHr"
      by (rule narrow_h_boxes)
    from na have f2: "frame h h2" by (rule narrow_h_frame)
    from wt gl have it0: "index_h h target s = Inr (?T ! s)"
      by (simp add: index_h_contents)
    from wp gl have ip0: "index_h h pivot s = Inr (?P ! s)"
      by (simp add: index_h_contents)
    with v have veq: "v = ?P ! s" by simp
    from it0 index_h_frame [OF wt f2] have it: "index_h h2 target s = Inr (?T ! s)" by simp
    from ip0 index_h_frame [OF wp f2] have ip: "index_h h2 pivot s = Inr (?P ! s)" by simp
    have "\<exists>n1' h3. nn_h (if ?T ! s \<le> ?P ! s then l else r) target
            (if ?T ! s \<le> ?P ! s then leftHr else rightHr) B h2 = Inr ((n1', d1, nv1), h3)"
    proof (cases "?T ! s \<le> ?P ! s")
      case True
      with near have "nn (?A l) ?T (leftBox ?B s (?P ! s)) B = Inr (n1, d1, nv1)" by simp
      from step [OF this _ f2 wfl] bl veq True show ?thesis by auto
    next
      case False
      with near have "nn (?A r) ?T (rightBox ?B s (?P ! s)) B = Inr (n1, d1, nv1)" by simp
      from step [OF this _ f2 wfr] br veq False show ?thesis by auto
    qed
    then obtain n1' h3 where nh: "nn_h (if ?T ! s \<le> ?P ! s then l else r) target
            (if ?T ! s \<le> ?P ! s then leftHr else rightHr) B h2 = Inr ((n1', d1, nv1), h3)"
      by blast
    then have f23: "frame h2 h3" by (rule nn_h_frame)
    from f2 f23 have f3: "frame h h3" by (rule frame_trans)
    from it0 index_h_frame [OF wt f3] have it': "index_h h3 target s = Inr (?T ! s)" by simp
    from ip0 index_h_frame [OF wp f3] have ip': "index_h h3 pivot s = Inr (?P ! s)" by simp
    from wfl f23 have w3l: "wf_box h3 leftHr" by (rule wf_box_frame)
    from wfr f23 have w3r: "wf_box h3 rightHr" by (rule wf_box_frame)
    from bl veq have b3l: "box h3 leftHr = leftBox ?B s (?P ! s)"
      by (simp add: box_frame [OF wfl f23])
    from br veq have b3r: "box h3 rightHr = rightBox ?B s (?P ! s)"
      by (simp add: box_frame [OF wfr f23])
    from na it ip nh it' ip' f3 w3l w3r b3l b3r show ?thesis
      by blast
  qed
  from abs show ?case
  proof (cases rule: nn_NodeE)
    case (pruned nearK farK nearHr n1 d1 nv1)
    from pruned(5,6) have "nn (if ?T ! s \<le> ?P ! s then ?A l else ?A r) ?T
          (if ?T ! s \<le> ?P ! s then leftBox ?B s (?P ! s) else rightBox ?B s (?P ! s)) B =
        Inr (n1, d1, nv1)"
      by auto
    from node [OF pruned(1-4) this] obtain leftHr rightHr h2 n1' h3 where
      "narrow_h hr pivot s h = Inr (leftHr, rightHr, h2)"
      "index_h h2 target s = Inr (?T ! s)" "index_h h2 pivot s = Inr (?P ! s)"
      "nn_h (if ?T ! s \<le> ?P ! s then l else r) target
            (if ?T ! s \<le> ?P ! s then leftHr else rightHr) B h2 = Inr ((n1', d1, nv1), h3)"
      "index_h h3 target s = Inr (?T ! s)" "index_h h3 pivot s = Inr (?P ! s)"
      by blast
    with pruned(7) show ?thesis
      by (simp add: Let_def tighten_def)
  next
    case (searched nearK farK nearHr farHr n1 d1 nv1 v n3 d3 nv3)
    from searched(5,6) have "nn (if ?T ! s \<le> ?P ! s then ?A l else ?A r) ?T
          (if ?T ! s \<le> ?P ! s then leftBox ?B s (?P ! s) else rightBox ?B s (?P ! s)) B =
        Inr (n1, d1, nv1)"
      by auto
    from node [OF searched(1-4) this] obtain leftHr rightHr h2 n1' h3 where
      n: "narrow_h hr pivot s h = Inr (leftHr, rightHr, h2)"
      "index_h h2 target s = Inr (?T ! s)" "index_h h2 pivot s = Inr (?P ! s)"
      "nn_h (if ?T ! s \<le> ?P ! s then l else r) target
            (if ?T ! s \<le> ?P ! s then leftHr else rightHr) B h2 = Inr ((n1', d1, nv1), h3)"
      "index_h h3 target s = Inr (?T ! s)" "index_h h3 pivot s = Inr (?P ! s)"
      and f3: "frame h h3" and w3: "wf_box h3 leftHr" "wf_box h3 rightHr"
      and b3: "box h3 leftHr = leftBox ?B s (?P ! s)" "box h3 rightHr = rightBox ?B s (?P ! s)"
      by blast
    from wp wt f3 have "wf_slice h3 pivot" "wf_slice h3 target"
      by (auto intro: wf_slice_frame)
    then have "Sqd_h h3 pivot target = Sqd (contents h3 pivot) (contents h3 target)"
      by (rule Sqd_h_contents)
    with wp wt searched(8) have sq: "Sqd_h h3 pivot target = Inr v"
      by (simp add: contents_frame [OF _ f3])
    have "\<exists>n3' h'. nn_h (if ?T ! s \<le> ?P ! s then r else l) target
        (if ?T ! s \<le> ?P ! s then rightHr else leftHr)
        (if dlt (Fin v) d1 then Fin v else tighten d1 B) h3 = Inr ((n3', d3, nv3), h')"
    proof (cases "?T ! s \<le> ?P ! s")
      case True
      with searched(5,9) have "nn (?A r) ?T (rightBox ?B s (?P ! s))
          (if dlt (Fin v) d1 then Fin v else tighten d1 B) = Inr (n3, d3, nv3)"
        by auto
      from step [OF this _ f3 w3(2) b3(2)] True show ?thesis by auto
    next
      case False
      with searched(5,9) have "nn (?A l) ?T (leftBox ?B s (?P ! s))
          (if dlt (Fin v) d1 then Fin v else tighten d1 B) = Inr (n3, d3, nv3)"
        by auto
      from step [OF this _ f3 w3(1) b3(1)] False show ?thesis by auto
    qed
    then obtain n3' h' where "nn_h (if ?T ! s \<le> ?P ! s then r else l) target
        (if ?T ! s \<le> ?P ! s then rightHr else leftHr)
        (if dlt (Fin v) d1 then Fin v else tighten d1 B) h3 = Inr ((n3', d3, nv3), h')"
      by blast
    with n sq searched(7) show ?thesis
      by (auto simp: Let_def tighten_def split: if_splits)
  qed
qed

section \<open>Facts about the search in float64 arithmetic\<close>

subsection \<open>Arithmetic\<close>

lemma flt_PosInf_right [simp]: "\<not> flt PosInf y"
  by (cases y) simp_all

lemma flt_NaN [simp]: "\<not> flt NaN y" "\<not> flt x NaN"
  by (cases y; simp) (cases x; simp)

lemma flt_imp_finite: "flt x y \<Longrightarrow> flt x PosInf"
  by (cases x; cases y) simp_all


lemma tighten_f_PosInf [simp]: "tighten_f PosInf PosInf = PosInf"
  by (simp add: tighten_f_def)

lemma fadd_commute: "fadd rnd x y = fadd rnd y x"
  by (cases x; cases y) (simp_all add: add.commute)

lemma fneg_fneg [simp]: "fneg (fneg x) = x"
  by (cases x) simp_all

lemma fneg_fadd:
  assumes "odd_rounding rnd"
  shows "fneg (fadd rnd x y) = fadd rnd (fneg x) (fneg y)"
proof (cases x)
  case x: (Fl a)
  show ?thesis
  proof (cases y)
    case y: (Fl b)
    from assms have "rnd (- (a + b)) = fneg (rnd (a + b))"
      by (simp only: odd_rounding_def)
    with x y show ?thesis by simp
  qed (simp_all add: x)
next
  case PosInf
  then show ?thesis by (cases y) simp_all
next
  case NegInf
  then show ?thesis by (cases y) simp_all
next
  case NaN
  then show ?thesis by simp
qed

lemma fsub_swap:
  assumes "odd_rounding rnd"
  shows "fsub rnd y x = fneg (fsub rnd x y)"
proof -
  have "fneg (fsub rnd x y) = fadd rnd (fneg x) (fneg (fneg y))"
    unfolding fsub_def by (rule fneg_fadd [OF assms])
  also have "\<dots> = fadd rnd y (fneg x)"
    by (simp add: fadd_commute)
  finally show ?thesis
    by (simp add: fsub_def)
qed

lemma fmul_fneg: "fmul rnd (fneg x) (fneg x) = fmul rnd x x"
  by (cases x) simp_all

lemma sq_swap:
  "odd_rounding rnd \<Longrightarrow>
   fmul rnd (fsub rnd y x) (fsub rnd y x) = fmul rnd (fsub rnd x y) (fsub rnd x y)"
  by (simp add: fsub_swap [of rnd x y] fmul_fneg)

subsection \<open>Rounding to nearest\<close>




lemma rint_of_int [simp]: "rint (of_int j) = j"
  by (simp add: rint_def)

lemma round_pos_int:
  fixes m :: int
  assumes "0 < m" and "m < 2 ^ 53"
  shows "round_pos (of_int m) = Fl (of_int m)"
proof -
  let ?x = "of_int m :: real"
  define e where "e = \<lfloor>log 2 ?x\<rfloor>"
  from assms(1) have x1: "1 \<le> ?x" by simp
  then have "0 \<le> log 2 ?x" by simp
  then have e0: "0 \<le> e" by (simp add: e_def)
  from assms(2) have "?x < 2 ^ 53"
    by (metis of_int_less_iff of_int_numeral of_int_power)
  with x1 have "log 2 ?x < 53"
    by (subst log_less_iff) simp_all
  then have e52: "e \<le> 52"
    by (simp add: e_def floor_le_iff)
  define k where "k = nat (52 - e)"
  from e52 have ek: "e - 52 = - int k" by (simp add: k_def)
  have ulp: "(2::real) powr of_int (e - 52) = 1 / 2 ^ k"
    unfolding ek by (simp add: powr_minus powr_realpow inverse_eq_divide)
  have q: "?x / (1 / 2 ^ k) = of_int (m * 2 ^ k)" by simp
  have r: "of_int (rint (?x / (1 / 2 ^ k))) * (1 / 2 ^ k) = ?x"
    unfolding q rint_of_int by simp
  from \<open>?x < 2 ^ 53\<close> have small: "\<not> 2 ^ 1024 \<le> ?x"
    by (simp add: not_le)
  from e0 have mx: "max e (- 1022) = e" by simp
  show ?thesis
    unfolding round_pos_def e_def [symmetric] Let_def mx ulp r using small by simp
qed

lemma round_f64_int:
  fixes m :: int
  assumes "\<bar>m\<bar> < 2 ^ 53"
  shows "round_f64 (of_int m) = Fl (of_int m)"
proof -
  consider "m = 0" | "0 < m" | "m < 0" by linarith
  then show ?thesis
  proof cases
    case 1
    then show ?thesis by (simp add: round_f64_def)
  next
    case 2
    with assms show ?thesis by (simp add: round_f64_def round_pos_int)
  next
    case 3
    with assms have "round_pos (of_int (- m)) = Fl (of_int (- m))"
      by (intro round_pos_int) simp_all
    with 3 show ?thesis by (simp add: round_f64_def)
  qed
qed

lemma round_f64_numeral [simp]:
  "numeral n < (2 ^ 53 :: int) \<Longrightarrow> round_f64 (numeral n) = Fl (numeral n)"
  "numeral n < (2 ^ 53 :: int) \<Longrightarrow> round_f64 (- numeral n) = Fl (- numeral n)"
  "round_f64 0 = Fl 0" "round_f64 1 = Fl 1" "round_f64 (- 1) = Fl (- 1)"
  using round_f64_int [of "numeral n"] round_f64_int [of "- numeral n"]
    round_f64_int [of 1] round_f64_int [of "- 1"]
  by (simp_all add: round_f64_def)




subsection \<open>Squared distance\<close>

text \<open>With a rounding that commutes with negation, \<open>p - q\<close> and \<open>q - p\<close> round to
  opposite values, whose squares are equal: the squared distance is symmetric.\<close>

lemma Sqd_f_loop_sym:
  "odd_rounding rnd \<Longrightarrow> length p = length q \<Longrightarrow>
   Sqd_f_loop rnd p q i acc = Sqd_f_loop rnd q p i acc"
proof (induction rnd p q i acc rule: Sqd_f_loop.induct)
  case (1 rnd p q i acc)
  show ?case
  proof (cases "i < length p")
    case True
    with "1.prems" have iq: "i < length q" by simp
    let ?d = "fsub rnd (p ! i) (q ! i)"
    from True iq "1.IH" [OF True iq refl] "1.prems"
    have "Sqd_f_loop rnd p q (i + 1) (fadd rnd acc (fmul rnd ?d ?d)) =
        Sqd_f_loop rnd q p (i + 1) (fadd rnd acc (fmul rnd ?d ?d))"
      by simp
    moreover have "Sqd_f_loop rnd p q i acc =
        Sqd_f_loop rnd p q (i + 1) (fadd rnd acc (fmul rnd ?d ?d))"
      using True iq by (subst Sqd_f_loop.simps) (simp add: Let_def)
    moreover have "Sqd_f_loop rnd q p i acc =
        Sqd_f_loop rnd q p (i + 1) (fadd rnd acc (fmul rnd ?d ?d))"
      using True iq "1.prems"(1)
      by (subst Sqd_f_loop.simps) (simp add: Let_def sq_swap [of rnd "q ! i" "p ! i"])
    ultimately show ?thesis by simp
  next
    case False
    with "1.prems" show ?thesis
      by (subst Sqd_f_loop.simps, subst (2) Sqd_f_loop.simps) simp
  qed
qed

lemma Sqd_f_sym:
  "odd_rounding rnd \<Longrightarrow> length p = length q \<Longrightarrow> Sqd_f rnd p q = Sqd_f rnd q p"
  by (simp add: Sqd_f_def Sqd_f_loop_sym)

lemma Sqd_f_loop_total:
  "length p \<le> length q \<Longrightarrow> \<exists>v. Sqd_f_loop rnd p q i acc = Inr v"
proof (induction rnd p q i acc rule: Sqd_f_loop.induct)
  case (1 rnd p q i acc)
  show ?case
  proof (cases "i < length p")
    case True
    with "1.prems" have iq: "i < length q" by simp
    from "1.IH" [OF True iq refl "1.prems"] True iq show ?thesis
      by (subst Sqd_f_loop.simps) (simp add: Let_def)
  next
    case False
    then show ?thesis
      by (subst Sqd_f_loop.simps) simp
  qed
qed

lemma Sqd_f_total: "length p \<le> length q \<Longrightarrow> \<exists>v. Sqd_f rnd p q = Inr v"
  by (simp add: Sqd_f_def Sqd_f_loop_total)


subsection \<open>The search\<close>

text \<open>The equation of \<open>nn_f\<close> at a node, with the local variables substituted.\<close>

lemma nn_f_Node:
  "nn_f rnd (KdNode pivot s l r) target hr B =
    (if s < length pivot \<and> s < length target \<and> s < length (fMax hr) \<and> s < length (fMin hr)
     then
       case nn_f rnd (if fle (target ! s) (pivot ! s) then l else r) target
               (if fle (target ! s) (pivot ! s) then leftBox_f hr s (pivot ! s)
                else rightBox_f hr s (pivot ! s)) B of
         Inl e \<Rightarrow> Inl e
       | Inr (n1, d1, nv1) \<Rightarrow>
           if flt (tighten_f d1 B)
                (fmul rnd (fsub rnd (pivot ! s) (target ! s)) (fsub rnd (pivot ! s) (target ! s)))
           then Inr (n1, d1, 1 + nv1)
           else
             case Sqd_f rnd pivot target of
               Inl e \<Rightarrow> Inl e
             | Inr v \<Rightarrow>
                 (case nn_f rnd (if fle (target ! s) (pivot ! s) then r else l) target
                          (if fle (target ! s) (pivot ! s) then rightBox_f hr s (pivot ! s)
                           else leftBox_f hr s (pivot ! s))
                          (if flt v d1 then v else tighten_f d1 B) of
                    Inl e \<Rightarrow> Inl e
                  | Inr (n3, d3, nv3) \<Rightarrow>
                      if flt d3 (if flt v d1 then v else d1)
                      then Inr (n3, d3, 1 + nv1 + nv3)
                      else Inr (if flt v d1 then Some pivot else n1,
                                if flt v d1 then v else d1, 1 + nv1 + nv3))
     else Inl IndexOutOfRange)"
proof (cases "s < length pivot \<and> s < length target \<and> s < length (fMax hr) \<and> s < length (fMin hr)")
  case True
  then show ?thesis
    by (cases "fle (target ! s) (pivot ! s)")
       (simp_all add: Let_def leftBox_f_def rightBox_f_def tighten_f_def Copy_f_def
          split: sum.split prod.split)
next
  case False
  then show ?thesis
    by (auto simp: Let_def Copy_f_def)
qed

declare nn_f.simps(2) [simp del]

lemma nn_f_NodeE:
  assumes "nn_f rnd (KdNode pivot s l r) target hr B = Inr res"
  obtains
    (pruned) nearK farK nearHr n1 d1 nv1 where
      "s < length pivot" "s < length target" "s < length (fMax hr)" "s < length (fMin hr)"
      "(fle (target ! s) (pivot ! s) \<and> nearK = l \<and> farK = r \<and>
          nearHr = leftBox_f hr s (pivot ! s)) \<or>
       (\<not> fle (target ! s) (pivot ! s) \<and> nearK = r \<and> farK = l \<and>
          nearHr = rightBox_f hr s (pivot ! s))"
      "nn_f rnd nearK target nearHr B = Inr (n1, d1, nv1)"
      "flt (tighten_f d1 B)
         (fmul rnd (fsub rnd (pivot ! s) (target ! s)) (fsub rnd (pivot ! s) (target ! s)))"
      "res = (n1, d1, 1 + nv1)"
  | (searched) nearK farK nearHr farHr n1 d1 nv1 v n3 d3 nv3 where
      "s < length pivot" "s < length target" "s < length (fMax hr)" "s < length (fMin hr)"
      "(fle (target ! s) (pivot ! s) \<and> nearK = l \<and> farK = r \<and>
          nearHr = leftBox_f hr s (pivot ! s) \<and> farHr = rightBox_f hr s (pivot ! s)) \<or>
       (\<not> fle (target ! s) (pivot ! s) \<and> nearK = r \<and> farK = l \<and>
          nearHr = rightBox_f hr s (pivot ! s) \<and> farHr = leftBox_f hr s (pivot ! s))"
      "nn_f rnd nearK target nearHr B = Inr (n1, d1, nv1)"
      "\<not> flt (tighten_f d1 B)
         (fmul rnd (fsub rnd (pivot ! s) (target ! s)) (fsub rnd (pivot ! s) (target ! s)))"
      "Sqd_f rnd pivot target = Inr v"
      "nn_f rnd farK target farHr (if flt v d1 then v else tighten_f d1 B) = Inr (n3, d3, nv3)"
      "res = (if flt d3 (if flt v d1 then v else d1) then (n3, d3, 1 + nv1 + nv3)
              else (if flt v d1 then Some pivot else n1,
                    if flt v d1 then v else d1, 1 + nv1 + nv3))"
proof -
  let ?h = "fmul rnd (fsub rnd (pivot ! s) (target ! s)) (fsub rnd (pivot ! s) (target ! s))"
  from assms have g: "s < length pivot" "s < length target"
      "s < length (fMax hr)" "s < length (fMin hr)"
    by (simp_all add: nn_f_Node split: if_splits)
  show thesis
  proof (cases "fle (target ! s) (pivot ! s)")
    case True
    with assms g obtain n1 d1 nv1 where
      n: "nn_f rnd l target (leftBox_f hr s (pivot ! s)) B = Inr (n1, d1, nv1)"
      by (auto simp: nn_f_Node split: sum.splits)
    show thesis
    proof (cases "flt (tighten_f d1 B) ?h")
      case p: True
      with assms g True n have "res = (n1, d1, 1 + nv1)"
        by (simp add: nn_f_Node)
      with g True n p show thesis
        by (intro pruned [of l r "leftBox_f hr s (pivot ! s)" n1 d1 nv1]) simp_all
    next
      case p: False
      with assms g True n obtain v where v: "Sqd_f rnd pivot target = Inr v"
        by (auto simp: nn_f_Node split: sum.splits)
      with assms g True n p obtain n3 d3 nv3 where
        f: "nn_f rnd r target (rightBox_f hr s (pivot ! s))
              (if flt v d1 then v else tighten_f d1 B) = Inr (n3, d3, nv3)"
        by (auto simp: nn_f_Node split: sum.splits)
      with assms g True n p v have
        "res = (if flt d3 (if flt v d1 then v else d1) then (n3, d3, 1 + nv1 + nv3)
              else (if flt v d1 then Some pivot else n1,
                    if flt v d1 then v else d1, 1 + nv1 + nv3))"
        by (simp add: nn_f_Node split: if_splits)
      with g True n p v f show thesis
        by (intro searched [of l r "leftBox_f hr s (pivot ! s)" "rightBox_f hr s (pivot ! s)"
              n1 d1 nv1 v n3 d3 nv3]) simp_all
    qed
  next
    case False
    with assms g obtain n1 d1 nv1 where
      n: "nn_f rnd r target (rightBox_f hr s (pivot ! s)) B = Inr (n1, d1, nv1)"
      by (auto simp: nn_f_Node split: sum.splits)
    show thesis
    proof (cases "flt (tighten_f d1 B) ?h")
      case p: True
      with assms g False n have "res = (n1, d1, 1 + nv1)"
        by (simp add: nn_f_Node)
      with g False n p show thesis
        by (intro pruned [of r l "rightBox_f hr s (pivot ! s)" n1 d1 nv1]) simp_all
    next
      case p: False
      with assms g False n obtain v where v: "Sqd_f rnd pivot target = Inr v"
        by (auto simp: nn_f_Node split: sum.splits)
      with assms g False n p obtain n3 d3 nv3 where
        f: "nn_f rnd l target (leftBox_f hr s (pivot ! s))
              (if flt v d1 then v else tighten_f d1 B) = Inr (n3, d3, nv3)"
        by (auto simp: nn_f_Node split: sum.splits)
      with assms g False n p v have
        "res = (if flt d3 (if flt v d1 then v else d1) then (n3, d3, 1 + nv1 + nv3)
              else (if flt v d1 then Some pivot else n1,
                    if flt v d1 then v else d1, 1 + nv1 + nv3))"
        by (simp add: nn_f_Node split: if_splits)
      with g False n p v f show thesis
        by (intro searched [of r l "rightBox_f hr s (pivot ! s)" "leftBox_f hr s (pivot ! s)"
              n1 d1 nv1 v n3 d3 nv3]) simp_all
    qed
  qed
qed

lemma nn_f_found:
  "nn_f rnd kd target hr B = Inr (n, d, nv) \<Longrightarrow> found_f rnd kd target n d"
proof (induction kd arbitrary: hr B n d nv)
  case KdNil
  then show ?case by (simp add: found_f_def)
next
  case (KdNode pivot s l r)
  from KdNode.prems show ?case
  proof (cases rule: nn_f_NodeE)
    case (pruned nearK farK nearHr n1 d1 nv1)
    then have "found_f rnd nearK target n1 d1"
      using KdNode.IH by blast
    with pruned show ?thesis
      by (auto simp: found_f_def)
  next
    case (searched nearK farK nearHr farHr n1 d1 nv1 v n3 d3 nv3)
    then have "found_f rnd nearK target n1 d1" "found_f rnd farK target n3 d3"
      using KdNode.IH by blast+
    with searched show ?thesis
      by (auto simp: found_f_def split: if_splits dest: flt_imp_finite)
  qed
qed


lemma leftBox_f_lengths [simp]:
  "length (fMin (leftBox_f hr s v)) = length (fMin hr)"
  "length (fMax (leftBox_f hr s v)) = length (fMax hr)"
  by (simp_all add: leftBox_f_def Copy_f_def)

lemma rightBox_f_lengths [simp]:
  "length (fMin (rightBox_f hr s v)) = length (fMin hr)"
  "length (fMax (rightBox_f hr s v)) = length (fMax hr)"
  by (simp_all add: rightBox_f_def Copy_f_def)

lemma nn_f_total:
  "dims_f k kd \<Longrightarrow> k \<le> length target \<Longrightarrow> k \<le> length (fMin hr) \<Longrightarrow>
   k \<le> length (fMax hr) \<Longrightarrow> \<exists>n d nv. nn_f rnd kd target hr B = Inr (n, d, nv)"
proof (induction kd arbitrary: hr B)
  case KdNil
  show ?case by simp
next
  case (KdNode pivot s l r)
  from KdNode.prems have g: "s < length pivot" "s < length target"
      "s < length (fMax hr)" "s < length (fMin hr)" "length pivot \<le> length target"
    by simp_all
  from g(5) obtain v where v: "Sqd_f rnd pivot target = Inr v"
    using Sqd_f_total by blast
  have l: "\<exists>n d nv. nn_f rnd l target (leftBox_f hr s (pivot ! s)) B' = Inr (n, d, nv)"
    "\<exists>n d nv. nn_f rnd l target (rightBox_f hr s (pivot ! s)) B' = Inr (n, d, nv)" for B'
    using KdNode.prems KdNode.IH(1) [of _ B'] by simp_all
  have r: "\<exists>n d nv. nn_f rnd r target (leftBox_f hr s (pivot ! s)) B' = Inr (n, d, nv)"
    "\<exists>n d nv. nn_f rnd r target (rightBox_f hr s (pivot ! s)) B' = Inr (n, d, nv)" for B'
    using KdNode.prems KdNode.IH(2) [of _ B'] by simp_all
  show ?case
  proof (cases "fle (target ! s) (pivot ! s)")
    case True
    from l(1) obtain n1 d1 nv1 where
      n: "nn_f rnd l target (leftBox_f hr s (pivot ! s)) B = Inr (n1, d1, nv1)"
      by blast
    from r(2) obtain n3 d3 nv3 where
      "nn_f rnd r target (rightBox_f hr s (pivot ! s))
         (if flt v d1 then v else tighten_f d1 B) = Inr (n3, d3, nv3)"
      by blast
    with True g v n show ?thesis
      by (simp add: nn_f_Node)
  next
    case False
    from r(2) obtain n1 d1 nv1 where
      n: "nn_f rnd r target (rightBox_f hr s (pivot ! s)) B = Inr (n1, d1, nv1)"
      by blast
    from l(1) obtain n3 d3 nv3 where
      "nn_f rnd l target (leftBox_f hr s (pivot ! s))
         (if flt v d1 then v else tighten_f d1 B) = Inr (n3, d3, nv3)"
      by blast
    with False g v n show ?thesis
      by (simp add: nn_f_Node)
  qed
qed

lemma dims_f_points: "dims_f k kd \<Longrightarrow> p \<in> points kd \<Longrightarrow> length p = k"
  by (induction kd) auto

lemma points_map_kdNode: "points (map_kdNode f kd) = f ` points kd"
  by (induction kd) auto

lemma dims_f_float: "dims k kd \<Longrightarrow> dims_f k (map_kdNode (map Fl) kd)"
  by (induction kd) auto


subsection \<open>Exact rounding\<close>

text \<open>With the identity as rounding function, the search in \<^verbatim>\<open>float64\<close> arithmetic
  is the search over the reals: on finite values that no operation rounds, \<open>nn_f\<close> and
  \<open>nn\<close> panic together and return the same point, distance and count.\<close>

lemma fle_Fl [simp]: "fle (Fl a) (Fl b) \<longleftrightarrow> a \<le> b"
  by (auto simp: fle_def)

lemma fsub_Fl [simp]: "fsub Fl (Fl a) (Fl b) = Fl (a - b)"
  by (simp add: fsub_def)

lemma flt_float_dist [simp]:
  "flt (float_dist a) (float_dist b) \<longleftrightarrow> dlt a b"
  "flt (Fl v) (float_dist b) \<longleftrightarrow> dlt (Fin v) b"
  "flt (float_dist a) (Fl v) \<longleftrightarrow> dlt a (Fin v)"
  by (cases a; cases b; simp)+

lemma tighten_f_float_dist [simp]:
  "tighten_f (float_dist a) (float_dist b) = float_dist (tighten a b)"
  by (simp add: tighten_f_def tighten_def)

lemma leftBox_f_float_box:
  "leftBox_f (float_box hr) s (Fl v) = float_box (leftBox hr s v)"
  by (simp add: leftBox_f_def leftBox_def Copy_f_def Copy_def float_box_def map_update)

lemma rightBox_f_float_box:
  "rightBox_f (float_box hr) s (Fl v) = float_box (rightBox hr s v)"
  by (simp add: rightBox_f_def rightBox_def Copy_f_def Copy_def float_box_def map_update)

lemma Sqd_f_loop_exact:
  "Sqd_f_loop Fl (map Fl p) (map Fl q) i (Fl acc) =
     (case Sqd_loop p q i acc of Inl e \<Rightarrow> Inl e | Inr v \<Rightarrow> Inr (Fl v))"
proof (induction p q i acc rule: Sqd_loop.induct)
  case (1 p q i acc)
  show ?case
  proof (cases "i < length p \<and> i < length q")
    case True
    with "1.IH" [OF _ _ refl] show ?thesis
      by (subst Sqd_f_loop.simps, subst Sqd_loop.simps) (simp add: Let_def)
  next
    case False
    then show ?thesis
      by (subst Sqd_f_loop.simps, subst Sqd_loop.simps) auto
  qed
qed

lemma Sqd_f_exact:
  "Sqd_f Fl (map Fl p) (map Fl q) = (case Sqd p q of Inl e \<Rightarrow> Inl e | Inr v \<Rightarrow> Inr (Fl v))"
  by (simp add: Sqd_f_def Sqd_def Sqd_f_loop_exact)

lemma float_box_lengths [simp]:
  "length (fMin (float_box hr)) = length (hrMin hr)"
  "length (fMax (float_box hr)) = length (hrMax hr)"
  by (simp_all add: float_box_def)

lemma float_result_simps [simp]:
  "float_result (Inl e) = Inl e"
  "float_result (Inr (n, d, nv)) = Inr (map_option (map Fl) n, float_dist d, nv)"
  by (simp_all add: float_result_def)

lemma case_float_result:
  "(case float_result x of Inl e \<Rightarrow> f e | Inr res \<Rightarrow> g res) =
   (case x of Inl e \<Rightarrow> f e | Inr (n, d, nv) \<Rightarrow> g (map_option (map Fl) n, float_dist d, nv))"
  by (simp add: float_result_def split: sum.split prod.split)

lemma nn_f_exact:
  "nn_f Fl (map_kdNode (map Fl) kd) (map Fl target) (float_box hr) (float_dist B) =
     float_result (nn kd target hr B)"
proof (induction kd arbitrary: hr B)
  case KdNil
  show ?case by simp
next
  case (KdNode pivot s l r)
  have ihl: "nn_f Fl (map_kdNode (map Fl) l) (map Fl target) (float_box hr') (float_dist B') =
      float_result (nn l target hr' B')" for hr' B'
    by (rule KdNode.IH(1))
  have ihr: "nn_f Fl (map_kdNode (map Fl) r) (map Fl target) (float_box hr') (float_dist B') =
      float_result (nn r target hr' B')" for hr' B'
    by (rule KdNode.IH(2))
  have ihl': "nn_f Fl (map_kdNode (map Fl) l) (map Fl target) (float_box hr') (Fl v) =
      float_result (nn l target hr' (Fin v))" for hr' v
    using ihl [of hr' "Fin v"] by simp
  have ihr': "nn_f Fl (map_kdNode (map Fl) r) (map Fl target) (float_box hr') (Fl v) =
      float_result (nn r target hr' (Fin v))" for hr' v
    using ihr [of hr' "Fin v"] by simp
  show ?case
  proof (cases "s < length pivot \<and> s < length target \<and> s < length (hrMax hr) \<and>
      s < length (hrMin hr)")
    case False
    then show ?thesis
      by (auto simp: nn_f_Node nn_Node)
  next
    case True
    then show ?thesis
      by (cases "target ! s \<le> pivot ! s")
        (simp_all add: nn_f_Node nn_Node leftBox_f_float_box rightBox_f_float_box
          ihl ihr ihl' ihr' case_float_result Sqd_f_exact split: sum.split prod.split)
  qed
qed

lemma Nearest_f_exact:
  "Nearest_f Fl (float_tree t) (map Fl target) = float_result (Nearest t target)"
  using nn_f_exact [of "tree_n t" target "Bounds t" PInf]
  by (simp add: Nearest_f_def Nearest_def float_tree_def)

text \<open>The tree that \<open>New\<close> builds, as \<^verbatim>\<open>float64\<close> values.\<close>

lemma New_float_tree:
  assumes "New srt pts bounds = Inr (t, pts')"
    and "\<forall>p \<in> set pts. length p = k" and "0 < k"
  shows "dims_f k (tree_n_f (float_tree t))"
    "points (tree_n_f (float_tree t)) \<subseteq> map Fl ` set pts"
    "length (fMin (Bounds_f (float_tree t))) = length (hrMin bounds)"
    "length (fMax (Bounds_f (float_tree t))) = length (hrMax bounds)"
proof -
  note tr = New_tree [OF assms]
  from tr(2) show "dims_f k (tree_n_f (float_tree t))"
    by (simp add: float_tree_def dims_f_float)
  from tr(1) show "points (tree_n_f (float_tree t)) \<subseteq> map Fl ` set pts"
    by (auto simp: float_tree_def points_map_kdNode)
  from tr(5) show "length (fMin (Bounds_f (float_tree t))) = length (hrMin bounds)"
    "length (fMax (Bounds_f (float_tree t))) = length (hrMax bounds)"
    by (simp_all add: float_tree_def)
qed

text \<open>A query on a tree that \<open>New\<close> has built from points of dimension \<open>k\<close>: a
  returned point is one of the input points, with its squared distance from the target.\<close>

lemma New_Nearest_f:
  assumes "\<forall>p \<in> set pts. length p = k" and "0 < k" and "length target = k"
    and "odd_rounding rnd"
  shows "\<exists>t pts'. New srt pts bounds = Inr (t, pts') \<and>
     (\<forall>n d nv. Nearest_f rnd (float_tree t) target = Inr (n, d, nv) \<longrightarrow>
        (n = None \<and> d = PosInf) \<or>
        (\<exists>p. n = Some (map Fl p) \<and> p \<in> set pts \<and>
           Sqd_f rnd target (map Fl p) = Inr d \<and> flt d PosInf)) \<and>
     (k \<le> length (hrMin bounds) \<and> k \<le> length (hrMax bounds) \<longrightarrow>
        (\<exists>n d nv. Nearest_f rnd (float_tree t) target = Inr (n, d, nv)))"
proof -
  from assms(1,2) obtain t pts' where new: "New srt pts bounds = Inr (t, pts')"
    using New_total by blast
  note ft = New_float_tree [OF new assms(1,2)]
  have res: "(n = None \<and> d = PosInf) \<or>
        (\<exists>p. n = Some (map Fl p) \<and> p \<in> set pts \<and>
           Sqd_f rnd target (map Fl p) = Inr d \<and> flt d PosInf)"
    if q: "Nearest_f rnd (float_tree t) target = Inr (n, d, nv)" for n d nv
  proof -
    from q have "found_f rnd (tree_n_f (float_tree t)) target n d"
      unfolding Nearest_f_def by (rule nn_f_found)
    then consider "n = None" "d = PosInf"
      | p where "n = Some p" "p \<in> points (tree_n_f (float_tree t))"
          "Sqd_f rnd p target = Inr d" "flt d PosInf"
      by (auto simp: found_f_def)
    then show ?thesis
    proof cases
      case 1
      then show ?thesis by simp
    next
      case 2
      from 2(2) ft(2) obtain p' where p': "p = map Fl p'" "p' \<in> set pts"
        by auto
      with assms(1,3) have "length target = length p" by simp
      with assms(4) have "Sqd_f rnd target p = Sqd_f rnd p target"
        by (rule Sqd_f_sym)
      with 2 p' show ?thesis by auto
    qed
  qed
  have tot: "\<exists>n d nv. Nearest_f rnd (float_tree t) target = Inr (n, d, nv)"
    if "k \<le> length (hrMin bounds) \<and> k \<le> length (hrMax bounds)"
    unfolding Nearest_f_def using that ft assms(3)
    by (intro nn_f_total [of k]) simp_all
  from new res tot show ?thesis by blast
qed

section \<open>The claims\<close>

subsection \<open>Optimality of the search (C1)\<close>

text \<open>
  C1. Optimality fails on the code. The three points \<open>(1, 0)\<close>, \<open>(1, 1)\<close>, \<open>(1, 2)\<close> agree
  in coordinate 0. \<open>nk2\<close> reads the pivot \<open>d = (1, 1)\<close> at the median index 1, the loop
  then moves \<open>m\<close> to 2, and the slice is cut at 2: \<open>(1, 1)\<close> is stored a second time in
  the left subtree and \<open>(1, 2)\<close>, the element at index 2, is in no node. The query for
  \<open>(1, 2)\<close> returns \<open>(1, 1)\<close> at squared distance 1, while the input point \<open>(1, 2)\<close> is at
  squared distance 0.
\<close>

theorem nearest_misses_input_point:
  "New insertion_sorter [[1, 0], [1, 1], [1, 2]] \<lparr>hrMin = [0, 0], hrMax = [10, 10]\<rparr> =
     Inr (\<lparr>tree_n = KdNode [1, 1] 0 (KdNode [1, 1] 1 (KdNode [1, 0] 0 KdNil KdNil) KdNil) KdNil,
           Bounds = \<lparr>hrMin = [0, 0], hrMax = [10, 10]\<rparr>\<rparr>,
          [[1, 0], [1, 1], [1, 2]]) \<and>
   Nearest \<lparr>tree_n = KdNode [1, 1] 0 (KdNode [1, 1] 1 (KdNode [1, 0] 0 KdNil KdNil) KdNil) KdNil,
            Bounds = \<lparr>hrMin = [0, 0], hrMax = [10, 10]\<rparr>\<rparr> [1, 2] =
     Inr (Some [1, 1], Fin 1, 3) \<and>
   Sqd [1, 2] [1, 2] = Inr 0 \<and> dlt (Fin 0) (Fin 1)"
proof (intro conjI)
  show "New insertion_sorter [[1, 0], [1, 1], [1, 2]] \<lparr>hrMin = [0, 0], hrMax = [10, 10]\<rparr> =
     Inr (\<lparr>tree_n = KdNode [1, 1] 0 (KdNode [1, 1] 1 (KdNode [1, 0] 0 KdNil KdNil) KdNil) KdNil,
           Bounds = \<lparr>hrMin = [0, 0], hrMax = [10, 10]\<rparr>\<rparr>,
          [[1, 0], [1, 1], [1, 2]])"
    by (simp add: New_def nk2.simps sort_part_def advance.simps sort_by_insertion Let_def)
  show "Nearest \<lparr>tree_n = KdNode [1, 1] 0 (KdNode [1, 1] 1 (KdNode [1, 0] 0 KdNil KdNil) KdNil) KdNil,
            Bounds = \<lparr>hrMin = [0, 0], hrMax = [10, 10]\<rparr>\<rparr> [1, 2] =
     Inr (Some [1, 1], Fin 1, 3)"
    by (simp add: Nearest_def nn_Node tighten_def Sqd_def Sqd_loop.simps Let_def)
  show "Sqd [1, 2] [1, 2] = Inr 0"
    by (simp add: Sqd_def Sqd_loop.simps Let_def)
  show "dlt (Fin 0) (Fin 1)"
    by simp
qed

subsection \<open>Consistency of the returned pair (C2)\<close>



subsection \<open>Partition invariant (C3)\<close>

text \<open>
  C3. Partition invariant of the construction. For points of dimension \<open>k > 0\<close>, \<open>New\<close>
  returns a tree whose root, if any, splits on dimension 0 and in which, at every node
  with split dimension \<open>s\<close> and pivot \<open>d\<close>, every point stored in the left subtree has
  coordinate \<open>s\<close> at most \<open>d ! s\<close>, every point stored in the right subtree has
  coordinate \<open>s\<close> at least \<open>d ! s\<close>, and each child splits on \<open>(s + 1) mod k\<close>.
\<close>

theorem new_partition_invariant:
  assumes "\<forall>p \<in> set pts. length p = k" and "0 < k"
  shows "\<exists>t pts'. New srt pts bounds = Inr (t, pts') \<and> partition_inv k (tree_n t) \<and>
           (tree_n t = KdNil \<or> (\<exists>d l r. tree_n t = KdNode d 0 l r))"
proof -
  from assms obtain t pts' where new: "New srt pts bounds = Inr (t, pts')"
    using New_total by blast
  note tr = New_tree [OF new assms]
  from tr(6) assms(2) have "tree_n t = KdNil \<or> (\<exists>d l r. tree_n t = KdNode d 0 l r)"
    by (cases "tree_n t") simp_all
  with new tr(3) show ?thesis by blast
qed

theorem new_partition_invariant_witness:
  "\<exists>t pts'. New insertion_sorter [[2, 3], [5, 4], [9, 6], [4, 7], [8, 1], [7, 2]]
       \<lparr>hrMin = [0, 0], hrMax = [10, 10]\<rparr> = Inr (t, pts') \<and>
     partition_inv 2 (tree_n t) \<and> (\<exists>d l r. tree_n t = KdNode d 0 l r) \<and>
     tree_n t = KdNode [7, 2] 0
       (KdNode [5, 4] 1 (KdNode [2, 3] 0 KdNil KdNil) (KdNode [4, 7] 0 KdNil KdNil))
       (KdNode [9, 6] 1 (KdNode [8, 1] 0 KdNil KdNil) KdNil)"
proof -
  have h: "\<forall>p \<in> set [[2, 3], [5, 4], [9, 6], [4, 7], [8, 1], [7, 2 :: real]]. length p = 2"
    by simp
  have e: "New insertion_sorter [[2, 3], [5, 4], [9, 6], [4, 7], [8, 1], [7, 2]]
       \<lparr>hrMin = [0, 0], hrMax = [10, 10]\<rparr> =
     Inr (\<lparr>tree_n = KdNode [7, 2] 0
       (KdNode [5, 4] 1 (KdNode [2, 3] 0 KdNil KdNil) (KdNode [4, 7] 0 KdNil KdNil))
       (KdNode [9, 6] 1 (KdNode [8, 1] 0 KdNil KdNil) KdNil),
       Bounds = \<lparr>hrMin = [0, 0], hrMax = [10, 10]\<rparr>\<rparr>,
      [[2, 3], [5, 4], [4, 7], [7, 2], [8, 1], [9, 6]])"
    by (simp add: New_def nk2.simps sort_part_def advance.simps sort_by_insertion Let_def)
  from new_partition_invariant [OF h, of insertion_sorter "\<lparr>hrMin = [0, 0], hrMax = [10, 10]\<rparr>"]
  show ?thesis
    unfolding e by simp
qed

subsection \<open>The pivot and the pruning test (C4)\<close>




subsection \<open>The Wikipedia example (C5)\<close>

text \<open>
  C5. The Wikipedia example. Whatever sorter is used (the keys are pairwise different at
  every level), the six points give the tree below, and the query for \<open>(9, 2)\<close> returns
  the point \<open>(8, 1)\<close>, squared distance 2 and three visited nodes.
\<close>

theorem wikipedia_example:
  "New srt [[2, 3], [5, 4], [9, 6], [4, 7], [8, 1], [7, 2]] \<lparr>hrMin = [0, 0], hrMax = [10, 10]\<rparr> =
     Inr (\<lparr>tree_n = KdNode [7, 2] 0
       (KdNode [5, 4] 1 (KdNode [2, 3] 0 KdNil KdNil) (KdNode [4, 7] 0 KdNil KdNil))
       (KdNode [9, 6] 1 (KdNode [8, 1] 0 KdNil KdNil) KdNil),
       Bounds = \<lparr>hrMin = [0, 0], hrMax = [10, 10]\<rparr>\<rparr>,
      [[2, 3], [5, 4], [4, 7], [7, 2], [8, 1], [9, 6]]) \<and>
   Nearest \<lparr>tree_n = KdNode [7, 2] 0
       (KdNode [5, 4] 1 (KdNode [2, 3] 0 KdNil KdNil) (KdNode [4, 7] 0 KdNil KdNil))
       (KdNode [9, 6] 1 (KdNode [8, 1] 0 KdNil KdNil) KdNil),
       Bounds = \<lparr>hrMin = [0, 0], hrMax = [10, 10]\<rparr>\<rparr> [9, 2] =
     Inr (Some [8, 1], Fin 2, 3)"
proof
  show "New srt [[2, 3], [5, 4], [9, 6], [4, 7], [8, 1], [7, 2]]
      \<lparr>hrMin = [0, 0], hrMax = [10, 10]\<rparr> =
     Inr (\<lparr>tree_n = KdNode [7, 2] 0
       (KdNode [5, 4] 1 (KdNode [2, 3] 0 KdNil KdNil) (KdNode [4, 7] 0 KdNil KdNil))
       (KdNode [9, 6] 1 (KdNode [8, 1] 0 KdNil KdNil) KdNil),
       Bounds = \<lparr>hrMin = [0, 0], hrMax = [10, 10]\<rparr>\<rparr>,
      [[2, 3], [5, 4], [4, 7], [7, 2], [8, 1], [9, 6]])"
    by (simp add: New_def nk2.simps sort_part_def advance.simps sort_by_distinct Let_def)
  show "Nearest \<lparr>tree_n = KdNode [7, 2] 0
       (KdNode [5, 4] 1 (KdNode [2, 3] 0 KdNil KdNil) (KdNode [4, 7] 0 KdNil KdNil))
       (KdNode [9, 6] 1 (KdNode [8, 1] 0 KdNil KdNil) KdNil),
       Bounds = \<lparr>hrMin = [0, 0], hrMax = [10, 10]\<rparr>\<rparr> [9, 2] =
     Inr (Some [8, 1], Fin 2, 3)"
    by (simp add: Nearest_def nn_Node tighten_def Sqd_def Sqd_loop.simps Let_def)
qed

subsection \<open>The empty tree (C6)\<close>

text \<open>
  C6. For every bounding box and every target, the tree built from the empty sequence
  of points has no root, and querying it returns no point, squared distance +Inf and a
  visit count of zero.
\<close>

theorem empty_tree_query:
  "New srt [] bounds = Inr (\<lparr>tree_n = KdNil, Bounds = bounds\<rparr>, []) \<and>
   Nearest \<lparr>tree_n = KdNil, Bounds = bounds\<rparr> target = Inr (None, PInf, 0)"
  by (simp add: New_def nk2.simps Nearest_def)

subsection \<open>A target with too few coordinates (C7)\<close>

text \<open>
  C7, as stated, fails: there is no InvalidDimension condition in the code. On the tree
  built from the one point \<open>(1, 2, 3)\<close> the query for \<open>(1, 2)\<close> reaches
  \<^verbatim>\<open>pivot.Sqd(target)\<close>, which reads \<^verbatim>\<open>q[2]\<close> of a slice of length 2.
\<close>

theorem short_target_index_panic:
  "New insertion_sorter [[1, 2, 3]] \<lparr>hrMin = [0, 0, 0], hrMax = [10, 10, 10]\<rparr> =
     Inr (\<lparr>tree_n = KdNode [1, 2, 3] 0 KdNil KdNil,
           Bounds = \<lparr>hrMin = [0, 0, 0], hrMax = [10, 10, 10]\<rparr>\<rparr>, [[1, 2, 3]]) \<and>
   Nearest \<lparr>tree_n = KdNode [1, 2, 3] 0 KdNil KdNil,
            Bounds = \<lparr>hrMin = [0, 0, 0], hrMax = [10, 10, 10]\<rparr>\<rparr> [1, 2] =
     Inl IndexOutOfRange"
  by (simp add: New_def nk2.simps sort_part_def advance.simps Let_def
      Nearest_def nn_Node tighten_def Sqd_def Sqd_loop.simps)

text \<open>
  C7, amended. On a non-empty tree built from points of dimension \<open>k\<close>, a query with a
  target of fewer than \<open>k\<close> coordinates returns nothing: it ends in the run-time panic
  for an index out of range.
\<close>

theorem short_target_panics:
  assumes "\<forall>p \<in> set pts. length p = k" and "pts \<noteq> []" and "length target < k"
  shows "\<exists>t pts'. New srt pts bounds = Inr (t, pts') \<and> Nearest t target = Inl IndexOutOfRange"
proof -
  from assms(3) have k: "0 < k" by simp
  with assms(1) obtain t pts' where new: "New srt pts bounds = Inr (t, pts')"
    using New_total by blast
  note tr = New_tree [OF new assms(1) k]
  from tr(4) assms(2) obtain pivot s l r where node: "tree_n t = KdNode pivot s l r"
    by (cases "tree_n t") auto
  have short: "\<forall>p \<in> points (tree_n t). length target < length p"
    using tr(2) assms(3) dims_points by blast
  have "Nearest t target \<noteq> Inr res" for res
  proof
    assume "Nearest t target = Inr res"
    with node have "nn (KdNode pivot s l r) target (Bounds t) PInf = Inr res"
      by (simp add: Nearest_def)
    then show False
    proof (cases rule: nn_NodeE)
      case (pruned nearK farK nearHr n1 d1 nv1)
      from pruned(5) node short have "\<forall>p \<in> points nearK. length target < length p"
        by auto
      with pruned(6) have "d1 = PInf"
        using nn_short_target by blast
      with pruned(7) show False by simp
    next
      case (searched nearK farK nearHr farHr n1 d1 nv1 v n3 d3 nv3)
      from node short have "length target < length pivot" by simp
      with searched(8) show False by (simp add: Sqd_short)
    qed
  qed
  then have "Nearest t target = Inl IndexOutOfRange"
    by (cases "Nearest t target") (auto intro: error.exhaust)
  with new show ?thesis by blast
qed

theorem short_target_panics_witness:
  "\<exists>t pts'. New insertion_sorter [[1, 2, 3], [4, 5, 6]] \<lparr>hrMin = [0, 0, 0], hrMax = [9, 9, 9]\<rparr> =
       Inr (t, pts') \<and>
     Nearest t [1, 2] = Inl IndexOutOfRange"
proof -
  have "\<forall>p \<in> set [[1, 2, 3], [4, 5, 6 :: real]]. length p = 3" by simp
  from short_target_panics [OF this, of "[1, 2]" insertion_sorter
      "\<lparr>hrMin = [0, 0, 0], hrMax = [9, 9, 9]\<rparr>"]
  show ?thesis by simp
qed

subsection \<open>Box-copy isolation (C8)\<close>

text \<open>
  C8. Box-copy isolation. Let the corners of the caller's box \<open>hr\<close> lie in the store
  \<open>h\<close>. (1) When a call of the search with box \<open>hr\<close> returns, every cell of \<open>h\<close> holds
  the value it held before, so the corners of \<open>hr\<close> have the same coordinates; this holds
  in particular for \<open>Nearest\<close> and the \<open>Bounds\<close> of the tree. (2) The two boxes made at a
  node are copies narrowed independently: the left one is \<open>hr\<close> with \<open>Max[s]\<close> replaced,
  the right one is \<open>hr\<close> with \<open>Min[s]\<close> replaced, and \<open>hr\<close> is as before. (3) A recursive
  call that is given one of the two boxes leaves the coordinates of the other one, of its
  own and of \<open>hr\<close> unchanged.
\<close>

theorem box_copy_isolation:
  assumes "wf_box h hr"
  shows
    "(\<forall>kd target B res h'. nn_h kd target hr B h = Inr (res, h') \<longrightarrow>
        frame h h' \<and> box h' hr = box h hr) \<and>
     (\<forall>t p res h'. Bounds_h t = hr \<and> Nearest_h t p h = Inr (res, h') \<longrightarrow>
        frame h h' \<and> box h' (Bounds_h t) = box h (Bounds_h t)) \<and>
     (\<forall>pivot s leftHr rightHr h2.
        wf_slice h pivot \<and> narrow_h hr pivot s h = Inr (leftHr, rightHr, h2) \<longrightarrow>
          box h2 hr = box h hr \<and>
          (\<exists>v. index_h h pivot s = Inr v \<and>
               box h2 leftHr = leftBox (box h hr) s v \<and>
               box h2 rightHr = rightBox (box h hr) s v) \<and>
          (\<forall>kd target B res h3. nn_h kd target leftHr B h2 = Inr (res, h3) \<longrightarrow>
             box h3 rightHr = box h2 rightHr \<and> box h3 leftHr = box h2 leftHr \<and>
             box h3 hr = box h hr) \<and>
          (\<forall>kd target B res h3. nn_h kd target rightHr B h2 = Inr (res, h3) \<longrightarrow>
             box h3 leftHr = box h2 leftHr \<and> box h3 rightHr = box h2 rightHr \<and>
             box h3 hr = box h hr))"
proof (intro conjI allI impI)
  fix kd target B res h'
  assume "nn_h kd target hr B h = Inr (res, h')"
  then show f: "frame h h'" by (rule nn_h_frame)
  from assms f show "box h' hr = box h hr" by (rule box_frame)
next
  fix t p res h'
  assume a: "Bounds_h t = hr \<and> Nearest_h t p h = Inr (res, h')"
  then have "nn_h (tree_n_h t) p hr PInf h = Inr (res, h')"
    by (auto simp: Nearest_h_def)
  then show f: "frame h h'" by (rule nn_h_frame)
  from a box_frame [OF assms f] show "box h' (Bounds_h t) = box h (Bounds_h t)"
    by auto
next
  fix pivot s leftHr rightHr h2
  assume a: "wf_slice h pivot \<and> narrow_h hr pivot s h = Inr (leftHr, rightHr, h2)"
  then have wp: "wf_slice h pivot" and na: "narrow_h hr pivot s h = Inr (leftHr, rightHr, h2)"
    by simp_all
  from na have f2: "frame h h2" by (rule narrow_h_frame)
  from assms wp na obtain v where v: "index_h h pivot s = Inr v"
    and bl: "box h2 leftHr = leftBox (box h hr) s v"
    and br: "box h2 rightHr = rightBox (box h hr) s v"
    and wfl: "wf_box h2 leftHr" and wfr: "wf_box h2 rightHr"
    by (rule narrow_h_boxes)
  from assms f2 show b2: "box h2 hr = box h hr" by (rule box_frame)
  from v bl br show "\<exists>v. index_h h pivot s = Inr v \<and>
      box h2 leftHr = leftBox (box h hr) s v \<and> box h2 rightHr = rightBox (box h hr) s v"
    by blast
  from assms f2 have w2: "wf_box h2 hr" by (rule wf_box_frame)
  {
    fix kd target B res h3 and hr' :: HyperRect_h
    assume "nn_h kd target hr' B h2 = Inr (res, h3)"
    then have f3: "frame h2 h3" by (rule nn_h_frame)
    from wfr f3 have "box h3 rightHr = box h2 rightHr" by (rule box_frame)
    moreover from wfl f3 have "box h3 leftHr = box h2 leftHr" by (rule box_frame)
    moreover from b2 box_frame [OF w2 f3] have "box h3 hr = box h hr" by simp
    ultimately have "box h3 rightHr = box h2 rightHr \<and> box h3 leftHr = box h2 leftHr \<and>
        box h3 hr = box h hr"
      by simp
  }
  note rec = this
  {
    fix kd target B res h3
    assume c: "nn_h kd target leftHr B h2 = Inr (res, h3)"
    from rec [OF c] show "box h3 rightHr = box h2 rightHr" "box h3 leftHr = box h2 leftHr"
      "box h3 hr = box h hr"
      by simp_all
  }
  {
    fix kd target B res h3
    assume c: "nn_h kd target rightHr B h2 = Inr (res, h3)"
    from rec [OF c] show "box h3 leftHr = box h2 leftHr" "box h3 rightHr = box h2 rightHr"
      "box h3 hr = box h hr"
      by simp_all
  }
qed

theorem box_copy_isolation_witness:
  "Nearest_h
     \<lparr>tree_n_h = KdNode \<lparr>ptr = 4, len = 2\<rparr> 0 (KdNode \<lparr>ptr = 6, len = 2\<rparr> 1 KdNil KdNil) KdNil,
      Bounds_h = \<lparr>hMin = \<lparr>ptr = 0, len = 2\<rparr>, hMax = \<lparr>ptr = 2, len = 2\<rparr>\<rparr>\<rparr>
     \<lparr>ptr = 8, len = 2\<rparr> [0, 0, 10, 10, 5, 5, 2, 3, 1, 1] =
   Inr ((Some \<lparr>ptr = 6, len = 2\<rparr>, Fin 5, 2),
        [0, 0, 10, 10, 5, 5, 2, 3, 1, 1, 0, 0, 5, 10, 5, 0, 10, 10, 0, 0, 5, 3, 0, 3, 5, 10]) \<and>
   box [0, 0, 10, 10, 5, 5, 2, 3, 1, 1, 0, 0, 5, 10, 5, 0, 10, 10, 0, 0, 5, 3, 0, 3, 5, 10]
     \<lparr>hMin = \<lparr>ptr = 0, len = 2\<rparr>, hMax = \<lparr>ptr = 2, len = 2\<rparr>\<rparr> =
   \<lparr>hrMin = [0, 0], hrMax = [10, 10]\<rparr>"
proof -
  let ?hr = "\<lparr>hMin = \<lparr>ptr = 0, len = 2\<rparr>, hMax = \<lparr>ptr = 2, len = 2\<rparr>\<rparr>"
  let ?t = "\<lparr>tree_n_h = KdNode \<lparr>ptr = 4, len = 2\<rparr> 0
      (KdNode \<lparr>ptr = 6, len = 2\<rparr> 1 KdNil KdNil) KdNil, Bounds_h = ?hr\<rparr>"
  let ?h = "[0, 0, 10, 10, 5, 5, 2, 3, 1, 1 :: real]"
  let ?h' = "[0, 0, 10, 10, 5, 5, 2, 3, 1, 1, 0, 0, 5, 10, 5, 0, 10, 10, 0, 0, 5, 3, 0, 3, 5, 10 :: real]"
  have e: "Nearest_h ?t \<lparr>ptr = 8, len = 2\<rparr> ?h = Inr ((Some \<lparr>ptr = 6, len = 2\<rparr>, Fin 5, 2), ?h')"
    by (simp add: Nearest_h_def narrow_h_def Copy_h_def append_new_def contents_def
        index_h_def assign_h_def Sqd_h_def Sqd_h_loop.simps Let_def)
  have w: "wf_box ?h ?hr"
    by (simp add: wf_box_def wf_slice_def)
  have "Bounds_h ?t = ?hr" by simp
  with box_copy_isolation [OF w] e have "box ?h' (Bounds_h ?t) = box ?h (Bounds_h ?t)"
    by blast
  then have "box ?h' ?hr = \<lparr>hrMin = [0, 0], hrMax = [10, 10]\<rparr>"
    by (simp add: box_def contents_def)
  with e show ?thesis by simp
qed

subsection \<open>The bounding box and the result (C9)\<close>

text \<open>
  C9. The result of \<open>Nearest\<close> does not depend on the bounding box. For one sequence of
  points and two boxes: the two trees have the same nodes; two queries that both return
  give the same point, distance and visit count; with corners of the same lengths the
  two outcomes are the same altogether; and for points, target and boxes of dimension
  \<open>k\<close> both queries return. The box takes part in no comparison of \<open>nn\<close>: it is
  copied, narrowed and passed down.
\<close>

theorem nearest_box_independent:
  assumes "New srt pts b1 = Inr (t1, pts1)" and "New srt pts b2 = Inr (t2, pts2)"
  shows "tree_n t1 = tree_n t2 \<and> pts1 = pts2 \<and>
     (\<forall>r1 r2. Nearest t1 target = Inr r1 \<and> Nearest t2 target = Inr r2 \<longrightarrow> r1 = r2) \<and>
     (length (hrMin b1) = length (hrMin b2) \<and> length (hrMax b1) = length (hrMax b2) \<longrightarrow>
        Nearest t1 target = Nearest t2 target) \<and>
     ((\<forall>p \<in> set pts. length p = k) \<and> 0 < k \<and> length target = k \<and>
      length (hrMin b1) = k \<and> length (hrMax b1) = k \<and>
      length (hrMin b2) = k \<and> length (hrMax b2) = k \<longrightarrow>
        (\<exists>r. Nearest t1 target = Inr r \<and> Nearest t2 target = Inr r))"
proof -
  from assms have n: "tree_n t1 = tree_n t2" "pts1 = pts2" and
    b: "Bounds t1 = b1" "Bounds t2 = b2"
    by (auto simp: New_def split: sum.splits)
  have both: "r1 = r2" if "Nearest t1 target = Inr r1 \<and> Nearest t2 target = Inr r2" for r1 r2
    using that n(1) nn_box_irrelevant [of "tree_n t1" target "Bounds t1" PInf r1 "Bounds t2" r2]
    by (simp add: Nearest_def)
  have same: "Nearest t1 target = Nearest t2 target"
    if "length (hrMin b1) = length (hrMin b2) \<and> length (hrMax b1) = length (hrMax b2)"
    using that n(1) b nn_box_lengths [of "Bounds t1" "Bounds t2" "tree_n t1" target PInf]
    by (simp add: Nearest_def)
  have tot: "\<exists>r. Nearest t1 target = Inr r \<and> Nearest t2 target = Inr r"
    if h: "(\<forall>p \<in> set pts. length p = k) \<and> 0 < k \<and> length target = k \<and>
      length (hrMin b1) = k \<and> length (hrMax b1) = k \<and>
      length (hrMin b2) = k \<and> length (hrMax b2) = k"
  proof -
    from h assms(1) have "dims k (tree_n t1)"
      using New_tree(2) by blast
    with h b(1) obtain n d nv where "Nearest t1 target = Inr (n, d, nv)"
      using Nearest_total [of k t1 target] by auto
    moreover from h same have "Nearest t1 target = Nearest t2 target"
      by simp
    ultimately show ?thesis by auto
  qed
  from n both same tot show ?thesis by blast
qed

theorem nearest_box_independent_witness:
  "\<exists>t1 t2 pts1 pts2.
     New insertion_sorter [[2, 3], [5, 4], [9, 6], [4, 7], [8, 1], [7, 2]]
       \<lparr>hrMin = [0, 0], hrMax = [10, 10]\<rparr> = Inr (t1, pts1) \<and>
     New insertion_sorter [[2, 3], [5, 4], [9, 6], [4, 7], [8, 1], [7, 2]]
       \<lparr>hrMin = [20, 20], hrMax = [30, 30]\<rparr> = Inr (t2, pts2) \<and>
     Nearest t1 [9, 2] = Inr (Some [8, 1], Fin 2, 3) \<and>
     Nearest t2 [9, 2] = Inr (Some [8, 1], Fin 2, 3)"
proof -
  let ?pts = "[[2, 3], [5, 4], [9, 6], [4, 7], [8, 1], [7, 2 :: real]]"
  let ?t = "\<lambda>b. \<lparr>tree_n = KdNode [7, 2] 0
       (KdNode [5, 4] 1 (KdNode [2, 3] 0 KdNil KdNil) (KdNode [4, 7] 0 KdNil KdNil))
       (KdNode [9, 6] 1 (KdNode [8, 1] 0 KdNil KdNil) KdNil), Bounds = b\<rparr>"
  have e: "New insertion_sorter ?pts b =
      Inr (?t b, [[2, 3], [5, 4], [4, 7], [7, 2], [8, 1], [9, 6]])" for b
    by (simp add: New_def nk2.simps sort_part_def advance.simps sort_by_insertion Let_def)
  have q: "Nearest (?t \<lparr>hrMin = [0, 0], hrMax = [10, 10]\<rparr>) [9, 2] = Inr (Some [8, 1], Fin 2, 3)"
    by (simp add: Nearest_def nn_Node tighten_def Sqd_def Sqd_loop.simps Let_def)
  from nearest_box_independent [OF e [of "\<lparr>hrMin = [0, 0], hrMax = [10, 10]\<rparr>"]
      e [of "\<lparr>hrMin = [20, 20], hrMax = [30, 30]\<rparr>"], where target = "[9, 2]" and k = 2]
  have "Nearest (?t \<lparr>hrMin = [0, 0], hrMax = [10, 10]\<rparr>) [9, 2] =
        Nearest (?t \<lparr>hrMin = [20, 20], hrMax = [30, 30]\<rparr>) [9, 2]"
    by simp
  with q e show ?thesis
    by (metis (no_types, lifting))
qed

subsection \<open>The caller's slice after New (C10)\<close>

text \<open>
  C10. \<open>New\<close> reorders the caller's slice in place. When \<open>New\<close> returns, the slice
  holds the same points with the same multiplicities as before; for points of dimension
  \<open>k > 0\<close> it does return; and the order can differ: the slice \<open>(2), (1)\<close> is left as
  \<open>(1), (2)\<close>.
\<close>

theorem new_permutes_callers_slice:
  "(\<forall>t pts'. New srt pts bounds = Inr (t, pts') \<longrightarrow> mset pts' = mset pts) \<and>
   ((\<forall>p \<in> set pts. length p = k) \<and> 0 < k \<longrightarrow> (\<exists>t pts'. New srt pts bounds = Inr (t, pts'))) \<and>
   (\<exists>t. New srt [[2], [1]] bounds = Inr (t, [[1], [2]]))"
proof (intro conjI allI impI)
  fix t pts'
  assume "New srt pts bounds = Inr (t, pts')"
  then have "nk2 srt pts 0 = Inr (tree_n t, pts')"
    by (auto simp: New_def split: sum.splits)
  then show "mset pts' = mset pts"
    by (rule nk2_mset)
next
  assume "(\<forall>p \<in> set pts. length p = k) \<and> 0 < k"
  then show "\<exists>t pts'. New srt pts bounds = Inr (t, pts')"
    using New_total by blast
next
  show "\<exists>t. New srt [[2], [1]] bounds = Inr (t, [[1], [2]])"
    by (simp add: New_def nk2.simps sort_part_def advance.simps sort_by_distinct Let_def)
qed

theorem new_permutes_callers_slice_witness:
  "\<exists>t pts'. New insertion_sorter [[2, 3], [5, 4], [9, 6], [4, 7], [8, 1], [7, 2]]
       \<lparr>hrMin = [0, 0], hrMax = [10, 10]\<rparr> = Inr (t, pts') \<and>
     pts' = [[2, 3], [5, 4], [4, 7], [7, 2], [8, 1], [9, 6]] \<and>
     mset pts' = mset [[2, 3], [5, 4], [9, 6], [4, 7], [8, 1], [7, 2]]"
proof -
  let ?pts = "[[2, 3], [5, 4], [9, 6], [4, 7], [8, 1], [7, 2 :: real]]"
  let ?b = "\<lparr>hrMin = [0, 0], hrMax = [10, 10]\<rparr>"
  obtain t where e: "New insertion_sorter ?pts ?b =
      Inr (t, [[2, 3], [5, 4], [4, 7], [7, 2], [8, 1], [9, 6]])"
    by (simp add: New_def nk2.simps sort_part_def advance.simps sort_by_insertion Let_def)
  from new_permutes_callers_slice [of insertion_sorter ?pts ?b 2] e
  have "mset [[2, 3], [5, 4], [4, 7], [7, 2], [8, 1], [9, 6 :: real]] = mset ?pts"
    by blast
  with e show ?thesis by blast
qed

end
